theory Spec2Isabelle
  imports Main "HOL-Library.Multiset" "HOL-Library.Sublist"
begin

section \<open>Data model\<close>

text \<open>
  The exceptions the modelled code can raise.  An \<open>assert\<close> that fails raises
  \<open>AssertionError\<close> with its message; \<open>open\<close> on a missing path raises
  \<open>FileNotFoundError\<close>; \<open>range\<close> with step zero raises \<open>ValueError\<close>; a list
  index out of range raises \<open>IndexError\<close>; a missing dict key raises \<open>KeyError\<close>.
\<close>

datatype error =
    AssertionError string
  | FileNotFoundError string
  | ValueError
  | IndexError
  | KeyError string

text \<open>
  One element of \<open>ESMDataset.data\<close>: a dict with the keys \<open>"coords"\<close> and
  \<open>"seq"\<close>.  The coordinate array is kept abstract (type \<open>'c\<close>); further keys
  of the dict are the extension part of the record scheme.
\<close>

record 'c item =
  coords :: 'c
  seq :: string

section \<open>ESMDataset.filter_data\<close>

text \<open>
  The loop of \<open>filter_data\<close>: \<open>data = []\<close>, then every item that passes the test is
  appended to \<open>data\<close>.  The accumulator is the local list \<open>data\<close>.
\<close>

fun filter_data_loop ::
  "int \<Rightarrow> int \<Rightarrow> ('c, 'm) item_scheme list \<Rightarrow> ('c, 'm) item_scheme list
     \<Rightarrow> ('c, 'm) item_scheme list" where
  "filter_data_loop max_seq_len min_seq_len [] data = data"
| "filter_data_loop max_seq_len min_seq_len (item # rest) data =
     (if int (length (seq item)) \<le> max_seq_len \<and> int (length (seq item)) \<ge> min_seq_len
      then filter_data_loop max_seq_len min_seq_len rest (data @ [item])
      else filter_data_loop max_seq_len min_seq_len rest data)"

text \<open>
  \<open>filter_data(self, max_seq_len, min_seq_len)\<close>: takes the value of \<open>self.data\<close> and
  returns the value it is updated to.
\<close>

definition filter_data ::
  "int \<Rightarrow> int \<Rightarrow> ('c, 'm) item_scheme list \<Rightarrow> ('c, 'm) item_scheme list" where
  "filter_data max_seq_len min_seq_len self_data =
     filter_data_loop max_seq_len min_seq_len self_data []"

text \<open>The test of the loop, as a predicate on one item.\<close>

definition in_window :: "int \<Rightarrow> int \<Rightarrow> ('c, 'm) item_scheme \<Rightarrow> bool" where
  "in_window max_seq_len min_seq_len item \<longleftrightarrow>
     int (length (seq item)) \<le> max_seq_len \<and> int (length (seq item)) \<ge> min_seq_len"

section \<open>Dataset construction\<close>

text \<open>
  The file system as the constructors see it: a path either holds an unpickled value or
  does not exist.  Every constructor returns its result together with the list of the
  paths it has passed to \<open>open\<close>, in order, so that "before any I/O" is the statement
  that this list is empty.
\<close>

type_synonym 'd fs = "string \<rightharpoonup> 'd"

text \<open>\<open>os.path.join\<close> of two components (POSIX).\<close>

definition path_join :: "string \<Rightarrow> string \<Rightarrow> string" where
  "path_join a b =
     (if b \<noteq> [] \<and> hd b = CHR ''/'' then b
      else if a = [] \<or> last a = CHR ''/'' then a @ b
      else a @ ''/'' @ b)"

text \<open>\<open>with open(p, "rb") as f: pickle.load(f)\<close>.\<close>

definition open_load :: "'d fs \<Rightarrow> string \<Rightarrow> error + 'd" where
  "open_load fs p = (case fs p of None \<Rightarrow> Inl (FileNotFoundError p) | Some d \<Rightarrow> Inr d)"

text \<open>
  \<open>ESMDataset.__init__(split, args)\<close>.  \<open>args\<close> is an argparse namespace; the
  attributes the constructor reads (\<open>dataset_name\<close>, \<open>data_dir\<close>, \<open>max_seq_len\<close>, which
  may be \<open>None\<close>, and \<open>min_seq_len\<close>) are the parameters.  The result is the value of
  \<open>self.data\<close>.
\<close>

definition ESMDataset_init ::
  "('c, 'm) item_scheme list fs \<Rightarrow> string \<Rightarrow> string \<Rightarrow> string \<Rightarrow> int option \<Rightarrow> int
     \<Rightarrow> (error + ('c, 'm) item_scheme list) \<times> string list" where
  "ESMDataset_init fs split dataset_name data_dir max_seq_len min_seq_len =
     (if dataset_name \<notin> set [''cath'', ''pdb'']
      then (Inl (AssertionError ''Invalid Dataset Name''), [])
      else
        (let p = path_join data_dir (dataset_name @ ''/'' @ split @ ''.pkl'') in
         case open_load fs p of
           Inl e \<Rightarrow> (Inl e, [p])
         | Inr self_data \<Rightarrow>
             (case max_seq_len of
                None \<Rightarrow> (Inr self_data, [p])
              | Some mx \<Rightarrow> (Inr (filter_data mx min_seq_len self_data), [p]))))"

text \<open>
  \<open>RemoteHomologyDataset\<close>: \<open>self.data\<close> is a list of dicts (each with the key
  \<open>"primary"\<close> and the label keys), \<open>self.label_to_predict\<close> the name of the label
  key.
\<close>

record 'v RemoteHomologyDataset =
  rh_data :: "(string \<rightharpoonup> 'v) list"
  label_to_predict :: string

definition RemoteHomologyDataset_init ::
  "(string \<rightharpoonup> 'v) list fs \<Rightarrow> string \<Rightarrow> string \<Rightarrow> string
     \<Rightarrow> (error + 'v RemoteHomologyDataset) \<times> string list" where
  "RemoteHomologyDataset_init fs split label data_dir =
     (if split \<notin> set [''train'', ''val'', ''test_family_holdout'',
                        ''test_superfamily_holdout'', ''test_fold_holdout'']
      then (Inl (AssertionError (''Invalid Split: '' @ split)), [])
      else
        (let p = path_join data_dir (''remote_homology/'' @ split @ ''.pkl'') in
         case open_load fs p of
           Inl e \<Rightarrow> (Inl e, [p])
         | Inr d \<Rightarrow>
             (if label \<notin> set [''family'', ''superfamily'', ''fold'', ''class'']
              then (Inl (AssertionError (''Invalid label: '' @ label @ '' to predict'')), [p])
              else (Inr \<lparr>rh_data = d, label_to_predict = label @ ''_label''\<rparr>, [p]))))"

text \<open>
  The subscription \<open>xs[i]\<close> of a list: an index from \<open>-len(xs)\<close> up to \<open>-1\<close>
  is taken from the end, any index outside \<open>-len(xs) \<dots> len(xs) - 1\<close> raises.
\<close>

definition py_index :: "'a list \<Rightarrow> int \<Rightarrow> error + 'a" where
  "py_index xs i =
     (if 0 \<le> i \<and> i < int (length xs) then Inr (xs ! nat i)
      else if i < 0 \<and> - int (length xs) \<le> i then Inr (xs ! nat (int (length xs) + i))
      else Inl IndexError)"

text \<open>Dict subscription \<open>d[k]\<close>.\<close>

definition py_getkey :: "(string \<rightharpoonup> 'v) \<Rightarrow> string \<Rightarrow> error + 'v" where
  "py_getkey d k = (case d k of None \<Rightarrow> Inl (KeyError k) | Some v \<Rightarrow> Inr v)"

text \<open>\<open>RemoteHomologyDataset.__getitem__(index)\<close>.\<close>

definition RemoteHomologyDataset_getitem ::
  "'v RemoteHomologyDataset \<Rightarrow> int \<Rightarrow> error + ('v \<times> 'v)" where
  "RemoteHomologyDataset_getitem self index =
     (case py_index (rh_data self) index of
        Inl e \<Rightarrow> Inl e
      | Inr entry \<Rightarrow>
          (case py_getkey entry ''primary'' of
             Inl e \<Rightarrow> Inl e
           | Inr prim \<Rightarrow>
               (case py_getkey entry (label_to_predict self) of
                  Inl e \<Rightarrow> Inl e
                | Inr lab \<Rightarrow> Inr (prim, lab))))"

text \<open>\<open>StabilityDataset.__init__\<close> and \<open>FluoroscenceDataset.__init__\<close>.\<close>

definition StabilityDataset_init ::
  "'d fs \<Rightarrow> string \<Rightarrow> string \<Rightarrow> (error + 'd) \<times> string list" where
  "StabilityDataset_init fs split data_dir =
     (if split \<notin> set [''train'', ''val'', ''test'']
      then (Inl (AssertionError (''Invalid Split: '' @ split)), [])
      else
        (let p = path_join data_dir (''stability/'' @ split @ ''.pkl'') in
         (open_load fs p, [p])))"

definition FluoroscenceDataset_init ::
  "'d fs \<Rightarrow> string \<Rightarrow> string \<Rightarrow> (error + 'd) \<times> string list" where
  "FluoroscenceDataset_init fs split data_dir =
     (if split \<notin> set [''train'', ''val'', ''test'']
      then (Inl (AssertionError (''Invalid Split: '' @ split)), [])
      else
        (let p = path_join data_dir (''fluoroscence/'' @ split @ ''.pkl'') in
         (open_load fs p, [p])))"

section \<open>Random shuffling\<close>

text \<open>
  The state of the process-wide generator of module \<open>random\<close> is the stream of the raw
  draws it will still produce.  \<open>randbelow n\<close> consumes one draw and returns a number
  below \<open>n\<close>.
\<close>

type_synonym rng = "nat \<Rightarrow> nat"

definition randbelow :: "nat \<Rightarrow> rng \<Rightarrow> nat \<times> rng" where
  "randbelow n g = (g 0 mod n, \<lambda>k. g (Suc k))"

text \<open>
  \<open>random.shuffle(x)\<close> of the Python standard library:
  \<^verbatim>\<open>for i in reversed(range(1, len(x))): j = randbelow(i + 1); x[i], x[j] = x[j], x[i]\<close>.
  The first argument of the loop is the current \<open>i\<close>; the loop ends below 1.
\<close>

fun shuffle_loop :: "nat \<Rightarrow> 'a list \<Rightarrow> rng \<Rightarrow> 'a list \<times> rng" where
  "shuffle_loop 0 x g = (x, g)"
| "shuffle_loop (Suc k) x g =
     (case randbelow (Suc k + 1) g of
        (j, g') \<Rightarrow> shuffle_loop k (x[Suc k := x ! j, j := x ! Suc k]) g')"

definition shuffle :: "'a list \<Rightarrow> rng \<Rightarrow> 'a list \<times> rng" where
  "shuffle x g = shuffle_loop (length x - 1) x g"

section \<open>Ranges and slices\<close>

text \<open>
  The number of elements of \<open>range(lo, hi, step)\<close> for a step that is not zero, and the
  range itself, whose \<open>k\<close>-th element is \<open>lo + k * step\<close>.  Step zero raises
  \<open>ValueError\<close>.
\<close>

definition range_len :: "int \<Rightarrow> int \<Rightarrow> int \<Rightarrow> nat" where
  "range_len lo hi step =
     (if step > 0 then (if lo < hi then nat ((hi - lo - 1) div step + 1) else 0)
      else (if lo > hi then nat ((lo - hi - 1) div (- step) + 1) else 0))"

definition range_elems :: "int \<Rightarrow> int \<Rightarrow> int \<Rightarrow> int list" where
  "range_elems lo hi step = map (\<lambda>k. lo + int k * step) [0..<range_len lo hi step]"

definition py_range :: "int \<Rightarrow> int \<Rightarrow> int \<Rightarrow> error + int list" where
  "py_range lo hi step =
     (if step = 0 then Inl ValueError else Inr (range_elems lo hi step))"

text \<open>
  The slice \<open>xs[i:j]\<close>: a negative bound counts from the end, and both bounds are
  clamped to the list.
\<close>

definition slice_bound :: "nat \<Rightarrow> int \<Rightarrow> nat" where
  "slice_bound n i = (if i < 0 then nat (max 0 (int n + i)) else min n (nat i))"

definition py_slice :: "'a list \<Rightarrow> int \<Rightarrow> int \<Rightarrow> 'a list" where
  "py_slice xs i j =
     (let a = slice_bound (length xs) i; b = slice_bound (length xs) j
      in take (b - a) (drop a xs))"

section \<open>ESMBatchSampler\<close>

text \<open>
  \<open>bins\<close> is a dict from bin start to the list of data indices.  Its iteration order is
  its insertion order and decides the order of the flattened list, so it is an
  association list; each key occurs once.
\<close>

type_synonym bins = "(int \<times> nat list) list"

text \<open>
  The inner loop of \<open>create_bins\<close> over \<open>list(bins.keys())\<close>: the first key for which
  the test holds, where the loop appends and breaks; \<open>None\<close> when the loop runs to its
  end.
\<close>

fun first_bin :: "int \<Rightarrow> int \<Rightarrow> int list \<Rightarrow> int option" where
  "first_bin bin_size data_len [] = None"
| "first_bin bin_size data_len (bin_idx # rest) =
     (if data_len \<ge> bin_idx \<and> data_len < bin_idx + bin_size then Some bin_idx
      else first_bin bin_size data_len rest)"

text \<open>\<open>bins[bin_idx].append(data_idx)\<close>.\<close>

definition append_bin :: "int \<Rightarrow> nat \<Rightarrow> bins \<Rightarrow> bins" where
  "append_bin bin_idx data_idx bs =
     map (\<lambda>(k, xs). if k = bin_idx then (k, xs @ [data_idx]) else (k, xs)) bs"

text \<open>The outer loop over \<open>enumerate(data_lens)\<close>.\<close>

fun assign_loop :: "int \<Rightarrow> (nat \<times> int) list \<Rightarrow> bins \<Rightarrow> bins" where
  "assign_loop bin_size [] bs = bs"
| "assign_loop bin_size ((data_idx, data_len) # rest) bs =
     (case first_bin bin_size data_len (map fst bs) of
        None \<Rightarrow> assign_loop bin_size rest bs
      | Some bin_idx \<Rightarrow> assign_loop bin_size rest (append_bin bin_idx data_idx bs))"

text \<open>
  The last loop of \<open>create_bins\<close>: \<open>random.shuffle(bins[bin_idx])\<close> for every key in
  order.  Each key occurs once, so walking the keys is walking the entries.
\<close>

fun shuffle_bins :: "bins \<Rightarrow> rng \<Rightarrow> bins \<times> rng" where
  "shuffle_bins [] g = ([], g)"
| "shuffle_bins ((k, xs) # rest) g =
     (case shuffle xs g of
        (ys, g1) \<Rightarrow> (case shuffle_bins rest g1 of (rest', g2) \<Rightarrow> ((k, ys) # rest', g2)))"

text \<open>
  The list \<open>data_lens\<close> of \<open>create_bins\<close>; \<open>create_bins\<close> up to the shuffle
  (\<open>assign_bins\<close>) and whole.  \<open>self.data\<close>,
  \<open>args.min_seq_len\<close>, \<open>args.max_seq_len\<close> and \<open>args.sampler["bin_size"]\<close> are the
  parameters; the generator state is passed through.
\<close>

definition data_lens :: "('c, 'm) item_scheme list \<Rightarrow> int list" where
  "data_lens self_data = map (\<lambda>item. int (length (seq item))) self_data"

definition assign_bins ::
  "('c, 'm) item_scheme list \<Rightarrow> int \<Rightarrow> int \<Rightarrow> int \<Rightarrow> error + bins" where
  "assign_bins self_data min_seq_len max_seq_len bin_size =
     (case py_range min_seq_len max_seq_len bin_size of
        Inl e \<Rightarrow> Inl e
      | Inr starts \<Rightarrow>
          (let bs = map (\<lambda>i. (i, [])) starts
           in Inr (assign_loop bin_size (enumerate 0 (data_lens self_data)) bs)))"

definition create_bins ::
  "rng \<Rightarrow> ('c, 'm) item_scheme list \<Rightarrow> int \<Rightarrow> int \<Rightarrow> int \<Rightarrow> error + (bins \<times> rng)" where
  "create_bins g self_data min_seq_len max_seq_len bin_size =
     (case assign_bins self_data min_seq_len max_seq_len bin_size of
        Inl e \<Rightarrow> Inl e
      | Inr bs \<Rightarrow> Inr (shuffle_bins bs g))"

text \<open>
  \<open>create_batches\<close>: the bins are flattened in their iteration order
  (\<open>bins_flattened += bin_items\<close>), the flattened list is cut at every multiple of
  \<open>batch_size\<close> (\<open>all_batches\<close>), and the list of batches is shuffled.
\<close>

definition bins_flattened :: "bins \<Rightarrow> nat list" where
  "bins_flattened bs = foldl (\<lambda>acc (_, bin_items). acc @ bin_items) [] bs"

definition all_batches :: "nat list \<Rightarrow> int \<Rightarrow> error + nat list list" where
  "all_batches flat batch_size =
     (case py_range 0 (int (length flat)) batch_size of
        Inl e \<Rightarrow> Inl e
      | Inr starts \<Rightarrow> Inr (map (\<lambda>i. py_slice flat i (i + batch_size)) starts))"

definition create_batches :: "rng \<Rightarrow> bins \<Rightarrow> int \<Rightarrow> error + (nat list list \<times> rng)" where
  "create_batches g bs batch_size =
     (case all_batches (bins_flattened bs) batch_size of
        Inl e \<Rightarrow> Inl e
      | Inr chunks \<Rightarrow> Inr (shuffle chunks g))"

text \<open>
  \<open>ESMBatchSampler.__init__\<close>: the attributes it sets, \<open>self.data\<close> and \<open>self.args\<close>
  apart.
\<close>

record ESMBatchSampler =
  self_batch_size :: int
  drop_last :: bool
  self_bins :: bins
  self_batches :: "nat list list"

definition ESMBatchSampler_init ::
  "rng \<Rightarrow> ('c, 'm) item_scheme list \<Rightarrow> int \<Rightarrow> int \<Rightarrow> int \<Rightarrow> int
     \<Rightarrow> error + (ESMBatchSampler \<times> rng)" where
  "ESMBatchSampler_init g self_data min_seq_len max_seq_len bin_size batch_size =
     (case create_bins g self_data min_seq_len max_seq_len bin_size of
        Inl e \<Rightarrow> Inl e
      | Inr (bs, g1) \<Rightarrow>
          (case create_batches g1 bs batch_size of
             Inl e \<Rightarrow> Inl e
           | Inr (batches, g2) \<Rightarrow>
               Inr (\<lparr>self_batch_size = batch_size, drop_last = True,
                     self_bins = bs, self_batches = batches\<rparr>, g2)))"

text \<open>
  The data of the scenario of the specification: five records whose sequences have the
  lengths 10, 12, 25, 26 and 40.
\<close>

definition scenario_data :: "unit item list" where
  "scenario_data =
     map (\<lambda>n. \<lparr>coords = (), seq = replicate n (CHR ''A'')\<rparr>) [10, 12, 25, 26, 40]"

text \<open>Three records whose sequences have the lengths 10, 11 and 12.\<close>

definition remainder_data :: "unit item list" where
  "remainder_data =
     map (\<lambda>n. \<lparr>coords = (), seq = replicate n (CHR ''A'')\<rparr>) [10, 11, 12]"

section \<open>ESMDataLoader.collate_fn\<close>

text \<open>
  A batch item is the triple \<open>(coords, None, seq)\<close> that \<open>ESMDataset.__getitem__\<close>
  returns.  The two batch converters belong to the external \<open>esm\<close> package and are
  parameters.  Next to its result \<open>collate_fn\<close> returns the converter calls it made, in
  order, each with its argument.
\<close>

datatype ('c, 'n) converter_call =
    Esm2_call "(string \<times> string) list"
  | Esm_if_call "('c \<times> 'n \<times> string) list"

definition inp_seqs :: "('c \<times> 'n \<times> string) list \<Rightarrow> (string \<times> string) list" where
  "inp_seqs batch = map (\<lambda>item. ([], snd (snd item))) batch"

definition collate_fn ::
  "((string \<times> string) list \<Rightarrow> 'l \<times> 's \<times> 't)
     \<Rightarrow> (('c \<times> 'n \<times> string) list \<Rightarrow> 'co \<times> 'cf \<times> 'st \<times> 'x \<times> 'pm)
     \<Rightarrow> ('c \<times> 'n \<times> string) list
     \<Rightarrow> ('co \<times> 'cf \<times> 'st \<times> 't \<times> 'pm) \<times> ('c, 'n) converter_call list" where
  "collate_fn esm2_batch_converter esm_if_batch_converter batch =
     (case esm2_batch_converter (inp_seqs batch) of
        (labels', strs', tokens) \<Rightarrow>
          (case esm_if_batch_converter batch of
             (coords', confidence, strs, _, padding_mask) \<Rightarrow>
               ((coords', confidence, strs, tokens, padding_mask),
                [Esm2_call (inp_seqs batch), Esm_if_call batch])))"

section \<open>Properties of filter_data\<close>

lemma filter_data_loop_filter:
  "filter_data_loop mx mn xs acc = acc @ filter (in_window mx mn) xs"
  by (induction xs arbitrary: acc) (simp_all add: in_window_def)

lemma filter_data_filter:
  "filter_data mx mn xs = filter (in_window mx mn) xs"
  by (simp add: filter_data_def filter_data_loop_filter)

text \<open>
  C5.  After \<open>filter_data\<close> every remaining record has
  \<open>min_seq_len \<le> len(seq) \<le> max_seq_len\<close> (both inclusive); the records of the
  original list that were not retained are exactly those that violate the condition
  (the retained and the violating records together make up the original list, and every
  original record that is absent from the result violates the condition); and with
  \<open>min_seq_len > max_seq_len\<close> the result is the empty list, no error being possible
  (the function returns a list on every input).
\<close>

theorem filter_data_window:
  fixes self_data :: "('c, 'm) item_scheme list"
  shows "(\<forall>item \<in> set (filter_data max_seq_len min_seq_len self_data).
            min_seq_len \<le> int (length (seq item)) \<and> int (length (seq item)) \<le> max_seq_len)
       \<and> (\<forall>item \<in> set self_data. item \<notin> set (filter_data max_seq_len min_seq_len self_data) \<longrightarrow>
            \<not> (min_seq_len \<le> int (length (seq item)) \<and> int (length (seq item)) \<le> max_seq_len))
       \<and> mset self_data = mset (filter_data max_seq_len min_seq_len self_data)
            + mset (filter (\<lambda>item. \<not> (min_seq_len \<le> int (length (seq item))
                                        \<and> int (length (seq item)) \<le> max_seq_len)) self_data)
       \<and> (min_seq_len > max_seq_len \<longrightarrow> filter_data max_seq_len min_seq_len self_data = [])"
proof -
  have sw: "in_window max_seq_len min_seq_len =
      (\<lambda>item :: ('c, 'm) item_scheme.
         min_seq_len \<le> int (length (seq item)) \<and> int (length (seq item)) \<le> max_seq_len)"
    by (auto simp: in_window_def fun_eq_iff)
  have part: "mset self_data = mset (filter (in_window max_seq_len min_seq_len) self_data)
      + mset (filter (\<lambda>item. \<not> in_window max_seq_len min_seq_len item) self_data)"
    by (induction self_data) simp_all
  show ?thesis
    unfolding filter_data_filter
    using part by (auto simp: sw)
qed

theorem filter_data_window_witness:
  "filter_data 4 2 [\<lparr>coords = (0::nat), seq = ''A''\<rparr>, \<lparr>coords = 1, seq = ''ACD''\<rparr>,
                     \<lparr>coords = 2, seq = ''ACDEF''\<rparr>, \<lparr>coords = 3, seq = ''ACDE''\<rparr>]
     = [\<lparr>coords = 1, seq = ''ACD''\<rparr>, \<lparr>coords = 3, seq = ''ACDE''\<rparr>]
   \<and> (2::int) \<le> int (length ''ACD'') \<and> int (length ''ACD'') \<le> (4::int)
   \<and> (2::int) \<le> int (length ''ACDE'') \<and> int (length ''ACDE'') \<le> (4::int)
   \<and> \<not> ((2::int) \<le> int (length ''A'') \<and> int (length ''A'') \<le> (4::int))
   \<and> \<not> ((2::int) \<le> int (length ''ACDEF'') \<and> int (length ''ACDEF'') \<le> (4::int))
   \<and> (4::int) > 2
   \<and> filter_data 2 4 [\<lparr>coords = (0::nat), seq = ''A''\<rparr>, \<lparr>coords = 1, seq = ''ACD''\<rparr>] = []"
  using filter_data_window [of 4 2 "[\<lparr>coords = (0::nat), seq = ''A''\<rparr>, \<lparr>coords = 1, seq = ''ACD''\<rparr>,
                     \<lparr>coords = 2, seq = ''ACDEF''\<rparr>, \<lparr>coords = 3, seq = ''ACDE''\<rparr>]"]
        filter_data_window [of 2 4 "[\<lparr>coords = (0::nat), seq = ''A''\<rparr>, \<lparr>coords = 1, seq = ''ACD''\<rparr>]"]
  by (simp add: filter_data_def)

text \<open>
  C9.  \<open>filter_data\<close> is a stable filter: its result is the original list with the
  records outside the window removed, so the retained records are a subsequence of the
  original list (same relative order), and each of them is an element of the original
  list with all its fields, the coordinates and any further keys included.
\<close>

theorem filter_data_stable:
  fixes self_data :: "('c, 'm) item_scheme list"
  shows "filter_data max_seq_len min_seq_len self_data
           = filter (in_window max_seq_len min_seq_len) self_data
       \<and> subseq (filter_data max_seq_len min_seq_len self_data) self_data
       \<and> set (filter_data max_seq_len min_seq_len self_data) \<subseteq> set self_data"
  by (simp add: filter_data_filter)

section \<open>Shuffling permutes\<close>

lemma shuffle_loop_mset:
  "k < length x \<or> k = 0 \<Longrightarrow> mset (fst (shuffle_loop k x g)) = mset x"
proof (induction k arbitrary: x g)
  case 0
  then show ?case by simp
next
  case (Suc k)
  then have len: "Suc k < length x" by simp
  obtain j g' where r: "randbelow (Suc k + 1) g = (j, g')" by (cases "randbelow (Suc k + 1) g")
  then have "j < Suc k + 1" by (auto simp: randbelow_def)
  with len have j: "j < length x" by simp
  have sw: "mset (x[Suc k := x ! j, j := x ! Suc k]) = mset x"
    using mset_swap [OF j len] .
  have "mset (fst (shuffle_loop k (x[Suc k := x ! j, j := x ! Suc k]) g')) = mset (x[Suc k := x ! j, j := x ! Suc k])"
    using len by (intro Suc.IH) simp
  with sw r show ?case by simp
qed

lemma mset_shuffle: "mset (fst (shuffle x g)) = mset x"
  unfolding shuffle_def by (rule shuffle_loop_mset) (cases x; simp)

lemma length_shuffle: "length (fst (shuffle x g)) = length x"
  using mset_shuffle [of x g] by (metis size_mset)

lemma set_shuffle: "set (fst (shuffle x g)) = set x"
  using mset_shuffle [of x g] by (metis set_mset_mset)

lemma shuffle_bins_keys: "map fst (fst (shuffle_bins bs g)) = map fst bs"
  by (induction bs g rule: shuffle_bins.induct) (auto split: prod.splits)

lemma shuffle_bins_mset:
  "list_all2 (\<lambda>b b'. fst b' = fst b \<and> mset (snd b') = mset (snd b)) bs (fst (shuffle_bins bs g))"
proof (induction bs g rule: shuffle_bins.induct)
  case (1 g)
  then show ?case by simp
next
  case (2 k xs rest g)
  obtain ys g1 where s: "shuffle xs g = (ys, g1)" by (cases "shuffle xs g")
  obtain rest' g2 where r: "shuffle_bins rest g1 = (rest', g2)" by (cases "shuffle_bins rest g1")
  have "mset ys = mset xs" using mset_shuffle [of xs g] s by simp
  moreover have "list_all2 (\<lambda>b b'. fst b' = fst b \<and> mset (snd b') = mset (snd b)) rest rest'"
    using "2.IH" [OF s [symmetric]] r by simp
  ultimately show ?case using s r by simp
qed

lemma append_bin_keys: "map fst (append_bin b i bs) = map fst bs"
  by (induction bs) (auto simp: append_bin_def)

lemma assign_loop_eq:
  "assign_loop bin_size ils bs =
     map (\<lambda>(k, xs). (k, xs @ map fst (filter (\<lambda>(i, l). first_bin bin_size l (map fst bs) = Some k) ils))) bs"
proof (induction ils arbitrary: bs)
  case Nil
  then show ?case by simp
next
  case (Cons il ils)
  obtain i l where il: "il = (i, l)" by (cases il)
  show ?case
  proof (cases "first_bin bin_size l (map fst bs)")
    case None
    then show ?thesis using Cons.IH [of bs] il by simp
  next
    case (Some b)
    have "assign_loop bin_size (il # ils) bs = assign_loop bin_size ils (append_bin b i bs)"
      using Some il by simp
    also have "\<dots> = map (\<lambda>(k, xs). (k, xs @ map fst (filter (\<lambda>(i, l). first_bin bin_size l (map fst bs) = Some k) ils))) (append_bin b i bs)"
      using Cons.IH [of "append_bin b i bs"] by (simp add: append_bin_keys)
    also have "\<dots> = map (\<lambda>(k, xs). (k, xs @ map fst (filter (\<lambda>(i, l). first_bin bin_size l (map fst bs) = Some k) (il # ils)))) bs"
      using Some il by (auto simp: append_bin_def)
    finally show ?thesis .
  qed
qed

section \<open>Bins and ranges\<close>

lemma enumerate_filter_fst:
  "map fst (filter (\<lambda>(i, l). P l) (enumerate 0 ls)) = filter (\<lambda>i. P (ls ! i)) [0..<length ls]"
proof -
  have "enumerate 0 ls = map (\<lambda>i. (i, ls ! i)) [0..<length ls]"
    by (rule nth_equalityI) (simp_all add: nth_enumerate_eq)
  then show ?thesis by (simp add: filter_map comp_def)
qed

lemma first_bin_SomeD:
  "first_bin bsz l ks = Some k \<Longrightarrow> k \<in> set ks \<and> k \<le> l \<and> l < k + bsz"
  by (induction ks) (auto split: if_splits)

lemma first_bin_None_iff:
  "first_bin bsz l ks = None \<longleftrightarrow> (\<forall>k \<in> set ks. \<not> (k \<le> l \<and> l < k + bsz))"
  by (induction ks) auto

lemma first_bin_first:
  "first_bin bsz l ks = Some k \<longleftrightarrow>
     (\<exists>pre post. ks = pre @ k # post \<and> k \<le> l \<and> l < k + bsz
        \<and> (\<forall>k' \<in> set pre. \<not> (k' \<le> l \<and> l < k' + bsz)))"
proof (induction ks)
  case Nil
  then show ?case by simp
next
  case (Cons a ks)
  show ?case
  proof (cases "a \<le> l \<and> l < a + bsz")
    case True
    have "(\<exists>pre post. a # ks = pre @ k # post \<and> k \<le> l \<and> l < k + bsz
        \<and> (\<forall>k' \<in> set pre. \<not> (k' \<le> l \<and> l < k' + bsz))) \<longleftrightarrow> a = k"
    proof
      assume "\<exists>pre post. a # ks = pre @ k # post \<and> k \<le> l \<and> l < k + bsz
        \<and> (\<forall>k' \<in> set pre. \<not> (k' \<le> l \<and> l < k' + bsz))"
      then obtain pre post where d: "a # ks = pre @ k # post"
        and n: "\<forall>k' \<in> set pre. \<not> (k' \<le> l \<and> l < k' + bsz)" by blast
      show "a = k"
      proof (cases pre)
        case Nil
        with d show ?thesis by simp
      next
        case (Cons p ps)
        with d have "p = a" by simp
        with n Cons True show ?thesis by simp
      qed
    next
      assume "a = k"
      with True have "a # ks = [] @ k # ks \<and> k \<le> l \<and> l < k + bsz
        \<and> (\<forall>k' \<in> set []. \<not> (k' \<le> l \<and> l < k' + bsz))" by simp
      then show "\<exists>pre post. a # ks = pre @ k # post \<and> k \<le> l \<and> l < k + bsz
        \<and> (\<forall>k' \<in> set pre. \<not> (k' \<le> l \<and> l < k' + bsz))" by blast
    qed
    with True show ?thesis by simp
  next
    case False
    have "(\<exists>pre post. a # ks = pre @ k # post \<and> k \<le> l \<and> l < k + bsz
        \<and> (\<forall>k' \<in> set pre. \<not> (k' \<le> l \<and> l < k' + bsz)))
      \<longleftrightarrow> (\<exists>pre post. ks = pre @ k # post \<and> k \<le> l \<and> l < k + bsz
        \<and> (\<forall>k' \<in> set pre. \<not> (k' \<le> l \<and> l < k' + bsz)))" (is "?L \<longleftrightarrow> ?R")
    proof
      assume ?L
      then obtain pre post where d: "a # ks = pre @ k # post" and c: "k \<le> l \<and> l < k + bsz"
        and n: "\<forall>k' \<in> set pre. \<not> (k' \<le> l \<and> l < k' + bsz)" by blast
      show ?R
      proof (cases pre)
        case Nil
        with d c False show ?thesis by simp
      next
        case (Cons p ps)
        with d have "ks = ps @ k # post" by simp
        moreover from n Cons have "\<forall>k' \<in> set ps. \<not> (k' \<le> l \<and> l < k' + bsz)" by simp
        ultimately show ?thesis using c by blast
      qed
    next
      assume ?R
      then obtain pre post where d: "ks = pre @ k # post" and c: "k \<le> l \<and> l < k + bsz"
        and n: "\<forall>k' \<in> set pre. \<not> (k' \<le> l \<and> l < k' + bsz)" by blast
      from d have "a # ks = (a # pre) @ k # post" by simp
      moreover from n False have "\<forall>k' \<in> set (a # pre). \<not> (k' \<le> l \<and> l < k' + bsz)" by simp
      ultimately show ?L using c by blast
    qed
    moreover have "first_bin bsz l (a # ks) = first_bin bsz l ks" using False by auto
    ultimately show ?thesis using Cons.IH by (simp only:)
  qed
qed

lemma le_div_pos_iff:
  assumes "0 < (c::int)"
  shows "a \<le> b div c \<longleftrightarrow> a * c \<le> b"
proof
  assume "a \<le> b div c"
  then have "a * c \<le> (b div c) * c" using assms by (simp add: mult_right_mono)
  also have "\<dots> \<le> b"
    using div_mult_mod_eq [of b c] pos_mod_sign [OF assms, of b] by linarith
  finally show "a * c \<le> b" .
next
  assume "a * c \<le> b"
  then have "(a * c) div c \<le> b div c" using assms by (rule zdiv_mono1)
  then show "a \<le> b div c" using assms by simp
qed

lemma range_len_pos_iff:
  assumes "0 < step"
  shows "j < range_len lo hi step \<longleftrightarrow> lo + int j * step < hi"
proof (cases "lo < hi")
  case True
  have "j < range_len lo hi step \<longleftrightarrow> int j \<le> (hi - lo - 1) div step"
    using True assms by (auto simp: range_len_def)
  also have "\<dots> \<longleftrightarrow> int j * step \<le> hi - lo - 1"
    using assms by (rule le_div_pos_iff)
  finally show ?thesis by auto
next
  case False
  have "0 \<le> int j * step" using assms by simp
  then have "\<not> lo + int j * step < hi" using False by linarith
  moreover have "range_len lo hi step = 0" using False assms by (simp add: range_len_def)
  ultimately show ?thesis by simp
qed


lemma range_elems_mem_iff:
  assumes "0 < step"
  shows "k \<in> set (range_elems lo hi step) \<longleftrightarrow> k < hi \<and> (\<exists>j::nat. k = lo + int j * step)"
proof
  assume "k \<in> set (range_elems lo hi step)"
  then obtain j where j: "j < range_len lo hi step" and k: "k = lo + int j * step"
    by (auto simp: range_elems_def)
  from j have "lo + int j * step < hi" by (simp add: range_len_pos_iff [OF assms])
  with k show "k < hi \<and> (\<exists>j::nat. k = lo + int j * step)" by blast
next
  assume "k < hi \<and> (\<exists>j::nat. k = lo + int j * step)"
  then obtain j :: nat where k: "k = lo + int j * step" and "k < hi" by blast
  then have "j < range_len lo hi step" by (simp add: range_len_pos_iff [OF assms])
  with k show "k \<in> set (range_elems lo hi step)" by (auto simp: range_elems_def)
qed

lemma range_elems_strict_sorted:
  assumes "0 < step"
  shows "sorted_wrt (<) (range_elems lo hi step)"
proof -
  have "sorted_wrt (\<lambda>a b. lo + int a * step < lo + int b * step) [0..<range_len lo hi step]"
  proof (rule sorted_wrt_mono_rel [OF _ sorted_wrt_upt])
    fix a b :: nat
    assume "a < b"
    then show "lo + int a * step < lo + int b * step" using assms by simp
  qed
  then show ?thesis by (simp add: range_elems_def sorted_wrt_map)
qed

lemma bin_unique:
  assumes "0 < step" and "k = lo + int j * step" and "k' = lo + int j' * step"
    and "k \<le> l" "l < k + step" "k' \<le> l" "l < k' + step"
  shows "k = k'"
proof -
  have "int j * step < (int j' + 1) * step" using assms by (simp add: algebra_simps)
  then have 1: "int j < int j' + 1" using assms(1) by (simp only: mult_less_cancel_right_pos)
  have "int j' * step < (int j + 1) * step" using assms by (simp add: algebra_simps)
  then have 2: "int j' < int j + 1" using assms(1) by (simp only: mult_less_cancel_right_pos)
  from 1 2 have "j = j'" by simp
  with assms show ?thesis by simp
qed

lemma first_bin_range_iff:
  assumes "0 < step"
  shows "first_bin step l (range_elems lo hi step) = Some k \<longleftrightarrow>
           k \<in> set (range_elems lo hi step) \<and> k \<le> l \<and> l < k + step"
proof
  assume "first_bin step l (range_elems lo hi step) = Some k"
  then show "k \<in> set (range_elems lo hi step) \<and> k \<le> l \<and> l < k + step"
    by (rule first_bin_SomeD)
next
  assume r: "k \<in> set (range_elems lo hi step) \<and> k \<le> l \<and> l < k + step"
  then have "first_bin step l (range_elems lo hi step) \<noteq> None"
    unfolding first_bin_None_iff by blast
  then obtain k' where k': "first_bin step l (range_elems lo hi step) = Some k'" by blast
  note d = first_bin_SomeD [OF k']
  from r obtain j :: nat where j: "k = lo + int j * step"
    unfolding range_elems_mem_iff [OF assms] by blast
  from d obtain j' :: nat where j': "k' = lo + int j' * step"
    unfolding range_elems_mem_iff [OF assms] by blast
  have "k = k'" using bin_unique [OF assms j j'] r d by blast
  with k' show "first_bin step l (range_elems lo hi step) = Some k" by simp
qed

lemma first_bin_covers:
  assumes "0 < step" and "lo \<le> l" and "l < hi"
  shows "first_bin step l (range_elems lo hi step) = Some (lo + ((l - lo) div step) * step)"
proof -
  define q where "q = (l - lo) div step"
  have q0: "0 \<le> q" using assms by (simp add: q_def pos_imp_zdiv_nonneg_iff)
  have le: "q * step \<le> l - lo"
    using div_mult_mod_eq [of "l - lo" step] pos_mod_sign [OF assms(1), of "l - lo"]
    unfolding q_def by linarith
  have lt: "l - lo < q * step + step"
    using div_mult_mod_eq [of "l - lo" step] pos_mod_bound [OF assms(1), of "l - lo"]
    unfolding q_def by linarith
  have "lo + q * step = lo + int (nat q) * step" using q0 by simp
  moreover have "lo + q * step < hi" using le assms by linarith
  ultimately have "lo + q * step \<in> set (range_elems lo hi step)"
    unfolding range_elems_mem_iff [OF assms(1)] by blast
  moreover have "lo + q * step \<le> l" using le by linarith
  moreover have "l < lo + q * step + step" using lt by linarith
  ultimately have "first_bin step l (range_elems lo hi step) = Some (lo + q * step)"
    unfolding first_bin_range_iff [OF assms(1)] by blast
  then show ?thesis by (simp only: q_def)
qed

lemma first_bin_outside:
  assumes "0 < step"
  shows "first_bin step l (range_elems lo hi step) = None \<longleftrightarrow>
           l < lo \<or> l \<ge> lo + int (range_len lo hi step) * step"
proof
  assume n: "first_bin step l (range_elems lo hi step) = None"
  show "l < lo \<or> l \<ge> lo + int (range_len lo hi step) * step"
  proof (rule ccontr)
    assume "\<not> (l < lo \<or> l \<ge> lo + int (range_len lo hi step) * step)"
    then have lo: "lo \<le> l" and up: "l < lo + int (range_len lo hi step) * step" by auto
    define q where "q = (l - lo) div step"
    have q0: "0 \<le> q" using assms lo by (simp add: q_def pos_imp_zdiv_nonneg_iff)
    have le: "q * step \<le> l - lo"
      using div_mult_mod_eq [of "l - lo" step] pos_mod_sign [OF assms(1), of "l - lo"]
      unfolding q_def by linarith
    have lt: "l - lo < q * step + step"
      using div_mult_mod_eq [of "l - lo" step] pos_mod_bound [OF assms(1), of "l - lo"]
      unfolding q_def by linarith
    have "q * step < int (range_len lo hi step) * step" using le up by linarith
    then have "q < int (range_len lo hi step)" using assms by (simp only: mult_less_cancel_right_pos)
    then have "nat q < range_len lo hi step" using q0 by linarith
    then have "lo + int (nat q) * step \<in> (\<lambda>k. lo + int k * step) ` set [0..<range_len lo hi step]"
      by (intro imageI) simp
    then have "lo + int (nat q) * step \<in> set (range_elems lo hi step)"
      by (simp only: range_elems_def set_map)
    moreover have "lo + int (nat q) * step \<le> l" using le q0 by simp
    moreover have "l < lo + int (nat q) * step + step" using lt q0 by simp
    ultimately show False using n unfolding first_bin_None_iff by blast
  qed
next
  assume a: "l < lo \<or> l \<ge> lo + int (range_len lo hi step) * step"
  show "first_bin step l (range_elems lo hi step) = None"
    unfolding first_bin_None_iff
  proof
    fix k assume "k \<in> set (range_elems lo hi step)"
    then obtain j where j: "j < range_len lo hi step" and k: "k = lo + int j * step"
      by (auto simp: range_elems_def)
    have k0: "lo \<le> k" using k assms by simp
    have "int j + 1 \<le> int (range_len lo hi step)" using j by simp
    then have "(int j + 1) * step \<le> int (range_len lo hi step) * step"
      using assms by (simp only: mult_le_cancel_right_pos)
    then have "k + step \<le> lo + int (range_len lo hi step) * step"
      using k by (simp add: algebra_simps)
    with a k0 show "\<not> (k \<le> l \<and> l < k + step)" by linarith
  qed
qed

lemma range_elems_last:
  assumes "range_elems lo hi step \<noteq> []"
  shows "last (range_elems lo hi step) + step = lo + int (range_len lo hi step) * step"
proof -
  from assms have n: "range_len lo hi step \<noteq> 0" by (auto simp: range_elems_def)
  then have "last (range_elems lo hi step) = lo + int (range_len lo hi step - 1) * step"
    by (simp add: range_elems_def last_map)
  also have "\<dots> + step = lo + (int (range_len lo hi step - 1) + 1) * step"
    by (simp add: algebra_simps)
  also have "int (range_len lo hi step - 1) + 1 = int (range_len lo hi step)"
    using n by simp
  finally show ?thesis .
qed

lemma range_elems_upper_edge:
  assumes "0 < step"
  shows "hi \<le> lo + int (range_len lo hi step) * step \<or> hi \<le> lo"
proof -
  have "\<not> range_len lo hi step < range_len lo hi step" by simp
  then have "\<not> lo + int (range_len lo hi step) * step < hi"
    unfolding range_len_pos_iff [OF assms] .
  then show ?thesis by linarith
qed

lemma assign_bins_eq:
  assumes "bin_size \<noteq> 0"
  shows "assign_bins data mn mx bin_size =
           Inr (map (\<lambda>k. (k, filter (\<lambda>i. first_bin bin_size (data_lens data ! i)
                                         (range_elems mn mx bin_size) = Some k)
                                 [0..<length data]))
                    (range_elems mn mx bin_size))"
proof -
  have keys: "map fst (map (\<lambda>i. (i, [])) (range_elems mn mx bin_size)) = range_elems mn mx bin_size"
    by (simp add: comp_def)
  have len: "length (data_lens data) = length data" by (simp add: data_lens_def)
  show ?thesis
    using assms
    by (simp add: assign_bins_def py_range_def assign_loop_eq keys enumerate_filter_fst len comp_def)
qed

lemma shuffle_bins_content:
  assumes "(k, ys) \<in> set (fst (shuffle_bins bs g))"
  shows "\<exists>xs. (k, xs) \<in> set bs \<and> mset ys = mset xs"
proof -
  from assms obtain n where n: "n < length (fst (shuffle_bins bs g))"
    and e: "fst (shuffle_bins bs g) ! n = (k, ys)" by (auto simp: in_set_conv_nth)
  note r = shuffle_bins_mset [of bs g]
  from r have l: "length bs = length (fst (shuffle_bins bs g))" by (rule list_all2_lengthD)
  from list_all2_nthD2 [OF r n] e
  have "fst (bs ! n) = k \<and> mset ys = mset (snd (bs ! n))" by simp
  moreover have "bs ! n \<in> set bs" using n l by simp
  ultimately show ?thesis by (metis prod.collapse)
qed

lemma list_all2_mset_concat:
  "list_all2 (\<lambda>b b'. fst b' = fst b \<and> mset (snd b') = mset (snd b)) as bs
     \<Longrightarrow> mset (concat (map snd bs)) = mset (concat (map snd as))"
  by (induction rule: list_all2_induct) auto

lemma shuffle_bins_concat:
  "mset (concat (map snd (fst (shuffle_bins bs g)))) = mset (concat (map snd bs))"
  using shuffle_bins_mset [of bs g] by (rule list_all2_mset_concat)

lemma mset_filter_disj:
  assumes "\<And>i. \<not> (P i \<and> Q i)"
  shows "mset (filter P xs) + mset (filter Q xs) = mset (filter (\<lambda>i. P i \<or> Q i) xs)"
  using assms by (induction xs) auto

lemma mset_concat_partition:
  assumes "distinct ks"
  shows "mset (concat (map (\<lambda>k. filter (\<lambda>i. f i = Some k) xs) ks))
           = mset (filter (\<lambda>i. \<exists>k \<in> set ks. f i = Some k) xs)"
  using assms
proof (induction ks)
  case Nil
  then show ?case by simp
next
  case (Cons k ks)
  have d: "\<And>i. \<not> (f i = Some k \<and> (\<exists>k' \<in> set ks. f i = Some k'))"
    using Cons.prems by auto
  have "mset (concat (map (\<lambda>k. filter (\<lambda>i. f i = Some k) xs) (k # ks)))
      = mset (filter (\<lambda>i. f i = Some k) xs) + mset (filter (\<lambda>i. \<exists>k' \<in> set ks. f i = Some k') xs)"
    using Cons by simp
  also have "\<dots> = mset (filter (\<lambda>i. f i = Some k \<or> (\<exists>k' \<in> set ks. f i = Some k')) xs)"
    using d by (rule mset_filter_disj)
  also have "(\<lambda>i. f i = Some k \<or> (\<exists>k' \<in> set ks. f i = Some k')) = (\<lambda>i. \<exists>k' \<in> set (k # ks). f i = Some k')"
    by auto
  finally show ?case .
qed

lemma create_bins_Inr:
  assumes "bin_size \<noteq> 0"
  shows "create_bins g data mn mx bin_size =
           Inr (shuffle_bins
                  (map (\<lambda>k. (k, filter (\<lambda>i. first_bin bin_size (data_lens data ! i)
                                         (range_elems mn mx bin_size) = Some k)
                                 [0..<length data]))
                    (range_elems mn mx bin_size)) g)"
  by (simp add: create_bins_def assign_bins_eq [OF assms])

lemma create_bins_keys:
  assumes "bin_size \<noteq> 0" and "create_bins g data mn mx bin_size = Inr (bs, g')"
  shows "map fst bs = range_elems mn mx bin_size"
proof -
  from assms have "bs = fst (shuffle_bins
                  (map (\<lambda>k. (k, filter (\<lambda>i. first_bin bin_size (data_lens data ! i)
                                         (range_elems mn mx bin_size) = Some k)
                                 [0..<length data]))
                    (range_elems mn mx bin_size)) g)"
    by (simp add: create_bins_Inr)
  then show ?thesis by (simp add: shuffle_bins_keys comp_def)
qed

lemma create_bins_content:
  assumes "bin_size \<noteq> 0" and "create_bins g data mn mx bin_size = Inr (bs, g')"
    and "(k, ys) \<in> set bs"
  shows "mset ys = mset (filter (\<lambda>i. first_bin bin_size (data_lens data ! i)
                                         (range_elems mn mx bin_size) = Some k)
                                 [0..<length data])"
proof -
  from assms have "(k, ys) \<in> set (fst (shuffle_bins
                  (map (\<lambda>k. (k, filter (\<lambda>i. first_bin bin_size (data_lens data ! i)
                                         (range_elems mn mx bin_size) = Some k)
                                 [0..<length data]))
                    (range_elems mn mx bin_size)) g))"
    by (simp add: create_bins_Inr)
  from shuffle_bins_content [OF this] show ?thesis by auto
qed

lemma create_bins_all:
  assumes "0 < bin_size" and "create_bins g data mn mx bin_size = Inr (bs, g')"
  shows "mset (concat (map snd bs)) =
           mset (filter (\<lambda>i. first_bin bin_size (data_lens data ! i)
                                (range_elems mn mx bin_size) \<noteq> None) [0..<length data])"
proof -
  let ?f = "\<lambda>i. first_bin bin_size (data_lens data ! i) (range_elems mn mx bin_size)"
  let ?ks = "range_elems mn mx bin_size"
  from assms have "bs = fst (shuffle_bins (map (\<lambda>k. (k, filter (\<lambda>i. ?f i = Some k) [0..<length data])) ?ks) g)"
    by (simp add: create_bins_Inr)
  then have "mset (concat (map snd bs)) =
      mset (concat (map snd (map (\<lambda>k. (k, filter (\<lambda>i. ?f i = Some k) [0..<length data])) ?ks)))"
    by (simp only: shuffle_bins_concat)
  also have "\<dots> = mset (concat (map (\<lambda>k. filter (\<lambda>i. ?f i = Some k) [0..<length data]) ?ks))"
    by (simp add: comp_def)
  also have "\<dots> = mset (filter (\<lambda>i. \<exists>k \<in> set ?ks. ?f i = Some k) [0..<length data])"
  proof (rule mset_concat_partition)
    show "distinct ?ks"
      using range_elems_strict_sorted [OF assms(1), of mn mx] by (simp add: strict_sorted_iff)
  qed
  also have "(\<lambda>i. \<exists>k \<in> set ?ks. ?f i = Some k) = (\<lambda>i. ?f i \<noteq> None)"
    by (auto dest: first_bin_SomeD)
  finally show ?thesis .
qed

lemma data_lens_scenario: "data_lens scenario_data = [10, 12, 25, 26, 40]"
  by (simp add: data_lens_def scenario_data_def)

lemma length_scenario: "length scenario_data = 5"
  by (simp add: scenario_data_def)

lemma count_concat_one:
  "count_list (concat xss) i = 1 \<Longrightarrow> length (filter (\<lambda>xs. i \<in> set xs) xss) = 1"
proof (induction xss)
  case Nil
  then show ?case by simp
next
  case (Cons xs xss)
  show ?case
  proof (cases "i \<in> set xs")
    case True
    then have "count_list xs i \<noteq> 0" using count_list_0_iff [of xs i] by blast
    then have "count_list xs i > 0" by simp
    with Cons.prems have "count_list (concat xss) i = 0" by simp
    then have "i \<notin> set (concat xss)" using count_list_0_iff [of "concat xss" i] by blast
    then have "filter (\<lambda>xs. i \<in> set xs) xss = []" by (auto simp: filter_empty_conv)
    with True show ?thesis by simp
  next
    case False
    then have "count_list xs i = 0" by (simp add: count_list_0_iff)
    with Cons.prems have "count_list (concat xss) i = 1" by simp
    with Cons.IH False show ?thesis by simp
  qed
qed

lemma create_bins_member:
  assumes "0 < bin_size" and "create_bins g data mn mx bin_size = Inr (bs, g')"
  shows "distinct (concat (map snd bs))"
    and "i \<in> set (concat (map snd bs)) \<longleftrightarrow>
           i < length data \<and> first_bin bin_size (data_lens data ! i) (range_elems mn mx bin_size) \<noteq> None"
proof -
  note m = create_bins_all [OF assms]
  have "distinct (filter (\<lambda>i. first_bin bin_size (data_lens data ! i)
                                (range_elems mn mx bin_size) \<noteq> None) [0..<length data])"
    by simp
  then show "distinct (concat (map snd bs))"
    using mset_eq_imp_distinct_iff [OF m] by simp
  have "set (concat (map snd bs)) = set (filter (\<lambda>i. first_bin bin_size (data_lens data ! i)
                                (range_elems mn mx bin_size) \<noteq> None) [0..<length data])"
    using m by (rule mset_eq_setD)
  then show "i \<in> set (concat (map snd bs)) \<longleftrightarrow>
           i < length data \<and> first_bin bin_size (data_lens data ! i) (range_elems mn mx bin_size) \<noteq> None"
    by auto
qed

lemma distinct_count_list:
  "distinct xs \<Longrightarrow> x \<in> set xs \<Longrightarrow> count_list xs x = 1"
  by (induction xs) (auto simp: count_list_0_iff)

section \<open>Claims about create_bins\<close>

lemma Inr_pair_ex: "\<exists>a b. (Inr p :: 'e + ('a \<times> 'b)) = Inr (a, b)"
  by (cases p) simp

lemma create_bins_total:
  assumes "bin_size \<noteq> 0"
  shows "\<exists>bs g'. create_bins g data mn mx bin_size = Inr (bs, g')"
  unfolding create_bins_Inr [OF assms] by (rule Inr_pair_ex)

text \<open>
  C2.  For a positive \<open>bin_size\<close>, \<open>create_bins\<close> returns bins whose keys are, in
  increasing order, exactly the values \<open>min_seq_len + j * bin_size\<close> below
  \<open>max_seq_len\<close>; the bin of key \<open>k\<close> holds, in some order, exactly the indices
  \<open>i\<close> for which \<open>k\<close> is the first key (in that order) with
  \<open>len_i \<ge> k\<close> and \<open>len_i < k + bin_size\<close>; and an index whose length is at
  or beyond the upper edge of the last bin is in no bin, no error being raised.
\<close>

theorem create_bins_binning:
  assumes "0 < bin_size"
  shows "\<exists>bs g'. create_bins g self_data min_seq_len max_seq_len bin_size = Inr (bs, g')
      \<and> (\<forall>k. k \<in> set (map fst bs) \<longleftrightarrow>
             k < max_seq_len \<and> (\<exists>j::nat. k = min_seq_len + int j * bin_size))
      \<and> sorted_wrt (<) (map fst bs)
      \<and> (\<forall>k ys. (k, ys) \<in> set bs \<longrightarrow>
            mset ys = mset (filter (\<lambda>i. first_bin bin_size (data_lens self_data ! i) (map fst bs) = Some k)
                              [0..<length self_data]))
      \<and> (\<forall>l k. first_bin bin_size l (map fst bs) = Some k \<longleftrightarrow>
            (\<exists>pre post. map fst bs = pre @ k # post \<and> l \<ge> k \<and> l < k + bin_size
               \<and> (\<forall>k' \<in> set pre. \<not> (l \<ge> k' \<and> l < k' + bin_size))))
      \<and> (\<forall>i < length self_data. map fst bs \<noteq> [] \<and>
            data_lens self_data ! i \<ge> last (map fst bs) + bin_size \<longrightarrow>
              i \<notin> set (concat (map snd bs)))"
proof -
  from assms have nz: "bin_size \<noteq> 0" by simp
  obtain bs g' where r: "create_bins g self_data min_seq_len max_seq_len bin_size = Inr (bs, g')"
    using create_bins_total [OF nz] by blast
  note keys = create_bins_keys [OF nz r]
  have 1: "\<forall>k. k \<in> set (map fst bs) \<longleftrightarrow>
             k < max_seq_len \<and> (\<exists>j::nat. k = min_seq_len + int j * bin_size)"
    unfolding keys using range_elems_mem_iff [OF assms] by blast
  have 2: "sorted_wrt (<) (map fst bs)"
    unfolding keys using assms by (rule range_elems_strict_sorted)
  have 3: "\<forall>k ys. (k, ys) \<in> set bs \<longrightarrow>
            mset ys = mset (filter (\<lambda>i. first_bin bin_size (data_lens self_data ! i) (map fst bs) = Some k)
                              [0..<length self_data])"
    unfolding keys using create_bins_content [OF nz r] by blast
  have 4: "\<forall>l k. first_bin bin_size l (map fst bs) = Some k \<longleftrightarrow>
            (\<exists>pre post. map fst bs = pre @ k # post \<and> l \<ge> k \<and> l < k + bin_size
               \<and> (\<forall>k' \<in> set pre. \<not> (l \<ge> k' \<and> l < k' + bin_size)))"
    using first_bin_first by blast
  have 5: "\<forall>i < length self_data. map fst bs \<noteq> [] \<and>
            data_lens self_data ! i \<ge> last (map fst bs) + bin_size \<longrightarrow>
              i \<notin> set (concat (map snd bs))"
  proof (intro allI impI)
    fix i
    assume "i < length self_data"
    assume a: "map fst bs \<noteq> [] \<and> data_lens self_data ! i \<ge> last (map fst bs) + bin_size"
    then have ne: "range_elems min_seq_len max_seq_len bin_size \<noteq> []" using keys by simp
    from a have "data_lens self_data ! i \<ge>
        min_seq_len + int (range_len min_seq_len max_seq_len bin_size) * bin_size"
      unfolding keys range_elems_last [OF ne] by simp
    then have "first_bin bin_size (data_lens self_data ! i)
        (range_elems min_seq_len max_seq_len bin_size) = None"
      unfolding first_bin_outside [OF assms] by simp
    then show "i \<notin> set (concat (map snd bs))"
      unfolding create_bins_member(2) [OF assms r] by simp
  qed
  show ?thesis
    by (rule exI [of _ bs], rule exI [of _ g']) (intro conjI r 1 2 3 4 5)
qed

lemma upt_5: "[0..<5] = [0, 1, 2, 3, 4]"
  by (simp add: upt_rec)

lemma range_elems_scenario: "range_elems 10 40 15 = [10, 25]"
  by (simp add: range_elems_def range_len_def upt_rec)

lemma scenario_first_bin_10:
  "filter (\<lambda>i. first_bin 15 (data_lens scenario_data ! i) [10, 25] = Some 10)
     [0..<length scenario_data] = [0, 1]"
  by (simp add: data_lens_scenario length_scenario upt_5)

lemma scenario_first_bin_25:
  "filter (\<lambda>i. first_bin 15 (data_lens scenario_data ! i) [10, 25] = Some 25)
     [0..<length scenario_data] = [2, 3]"
  by (simp add: data_lens_scenario length_scenario upt_5)

theorem create_bins_binning_witness:
  "(0::int) < 15
   \<and> (\<exists>bs g'. create_bins (\<lambda>k. 0) scenario_data 10 40 15 = Inr (bs, g')
         \<and> map fst bs = [10, 25]
         \<and> (\<exists>ys. (10, ys) \<in> set bs \<and> mset ys = {#0, 1#})
         \<and> (\<exists>ys. (25, ys) \<in> set bs \<and> mset ys = {#2, 3#})
         \<and> first_bin 15 12 (map fst bs) = Some 10
         \<and> (4::nat) < length scenario_data
         \<and> data_lens scenario_data ! 4 \<ge> last (map fst bs) + 15
         \<and> 4 \<notin> set (concat (map snd bs)))"
proof -
  have h: "(0::int) < 15" by simp
  from create_bins_binning [OF h, of "\<lambda>k. 0" scenario_data 10 40]
  obtain bs g' where r: "create_bins (\<lambda>k. 0) scenario_data 10 40 15 = Inr (bs, g')"
    and c: "\<forall>k ys. (k, ys) \<in> set bs \<longrightarrow>
            mset ys = mset (filter (\<lambda>i. first_bin 15 (data_lens scenario_data ! i) (map fst bs) = Some k)
                              [0..<length scenario_data])"
    and e: "\<forall>i < length scenario_data. map fst bs \<noteq> [] \<and>
            data_lens scenario_data ! i \<ge> last (map fst bs) + 15 \<longrightarrow>
              i \<notin> set (concat (map snd bs))"
    by (elim exE conjE)
  have keys: "map fst bs = [10, 25]"
    using create_bins_keys [OF _ r] by (simp add: range_elems_scenario)
  then obtain y10 y25 where bs: "bs = [(10, y10), (25, y25)]" by auto
  have "(10, y10) \<in> set bs" by (simp add: bs)
  with c have "mset y10 = mset (filter (\<lambda>i. first_bin 15 (data_lens scenario_data ! i) (map fst bs) = Some 10)
                              [0..<length scenario_data])" by blast
  then have "mset y10 = mset [0, 1]" by (simp only: keys scenario_first_bin_10)
  then have m10: "mset y10 = {#0, 1#}" by simp
  have "(25, y25) \<in> set bs" by (simp add: bs)
  with c have "mset y25 = mset (filter (\<lambda>i. first_bin 15 (data_lens scenario_data ! i) (map fst bs) = Some 25)
                              [0..<length scenario_data])" by blast
  then have "mset y25 = mset [2, 3]" by (simp only: keys scenario_first_bin_25)
  then have m25: "mset y25 = {#2, 3#}" by simp
  have l4: "(4::nat) < length scenario_data" by (simp add: length_scenario)
  have d4: "data_lens scenario_data ! 4 \<ge> last (map fst bs) + 15"
    by (simp add: keys data_lens_scenario)
  have n4: "4 \<notin> set (concat (map snd bs))"
    using e [rule_format, OF l4] d4 keys by simp
  have f: "first_bin 15 12 (map fst bs) = Some 10" by (simp add: keys)
  have b10: "\<exists>ys. (10, ys) \<in> set bs \<and> mset ys = {#0, 1#}"
    using m10 by (intro exI [of _ y10]) (simp add: bs)
  have b25: "\<exists>ys. (25, ys) \<in> set bs \<and> mset ys = {#2, 3#}"
    using m25 by (intro exI [of _ y25]) (simp add: bs)
  show ?thesis
    by (rule conjI [OF h], rule exI [of _ bs], rule exI [of _ g'])
       (intro conjI r keys b10 b25 f l4 d4 n4)
qed

text \<open>
  C4.  For a positive \<open>bin_size\<close>, every record index whose sequence length is at
  least \<open>min_seq_len\<close> and below \<open>max_seq_len\<close> is in exactly one bin, once: the
  keys of the bins are distinct, no index occurs twice in the concatenation of all
  bins (so none is in two bins or twice in one), and the index occurs once in that
  concatenation and in exactly one bin.
\<close>

theorem create_bins_exactly_one_bin:
  assumes "0 < bin_size" and "i < length self_data"
    and "min_seq_len \<le> data_lens self_data ! i" and "data_lens self_data ! i < max_seq_len"
  shows "\<exists>bs g'. create_bins g self_data min_seq_len max_seq_len bin_size = Inr (bs, g')
      \<and> distinct (map fst bs)
      \<and> distinct (concat (map snd bs))
      \<and> count_list (concat (map snd bs)) i = 1
      \<and> length (filter (\<lambda>b. i \<in> set (snd b)) bs) = 1"
proof -
  from assms have nz: "bin_size \<noteq> 0" by simp
  obtain bs g' where r: "create_bins g self_data min_seq_len max_seq_len bin_size = Inr (bs, g')"
    using create_bins_total [OF nz] by blast
  have 1: "distinct (map fst bs)"
    unfolding create_bins_keys [OF nz r]
    using range_elems_strict_sorted [OF assms(1), of min_seq_len max_seq_len]
    by (simp add: strict_sorted_iff)
  have 2: "distinct (concat (map snd bs))" using assms(1) r by (rule create_bins_member(1))
  have "first_bin bin_size (data_lens self_data ! i)
          (range_elems min_seq_len max_seq_len bin_size) \<noteq> None"
    using first_bin_covers [OF assms(1) assms(3) assms(4)] by simp
  then have "i \<in> set (concat (map snd bs))"
    unfolding create_bins_member(2) [OF assms(1) r] using assms(2) by simp
  with 2 have 3: "count_list (concat (map snd bs)) i = 1" by (rule distinct_count_list)
  from count_concat_one [OF 3]
  have 4: "length (filter (\<lambda>b. i \<in> set (snd b)) bs) = 1"
    by (simp add: filter_map comp_def)
  from r 1 2 3 4 show ?thesis by blast
qed

theorem create_bins_exactly_one_bin_witness:
  "(0::int) < 15 \<and> (3::nat) < length scenario_data
   \<and> 10 \<le> data_lens scenario_data ! 3 \<and> data_lens scenario_data ! 3 < 40
   \<and> (\<exists>bs g'. create_bins (\<lambda>k. 0) scenario_data 10 40 15 = Inr (bs, g')
         \<and> distinct (map fst bs)
         \<and> distinct (concat (map snd bs))
         \<and> count_list (concat (map snd bs)) 3 = 1
         \<and> length (filter (\<lambda>b. 3 \<in> set (snd b)) bs) = 1)"
proof -
  have h1: "(0::int) < 15" by simp
  have h2: "(3::nat) < length scenario_data" by (simp add: length_scenario)
  have h3: "10 \<le> data_lens scenario_data ! 3" by (simp add: data_lens_scenario)
  have h4: "data_lens scenario_data ! 3 < 40" by (simp add: data_lens_scenario)
  from h1 h2 h3 h4 create_bins_exactly_one_bin [OF h1 h2 h3 h4, of "\<lambda>k. 0"]
  show ?thesis by blast
qed

section \<open>Claims about the constructors\<close>

lemma sibling_inits_reject_split:
  "split \<notin> set [''train'', ''val'', ''test''] \<Longrightarrow>
     StabilityDataset_init fs split data_dir = (Inl (AssertionError (''Invalid Split: '' @ split)), [])
   \<and> FluoroscenceDataset_init fs split data_dir = (Inl (AssertionError (''Invalid Split: '' @ split)), [])"
  by (simp add: StabilityDataset_init_def FluoroscenceDataset_init_def)

lemma RemoteHomologyDataset_init_rejects_split:
  "split \<notin> set [''train'', ''val'', ''test_family_holdout'',
                    ''test_superfamily_holdout'', ''test_fold_holdout''] \<Longrightarrow>
     RemoteHomologyDataset_init fs split label data_dir
       = (Inl (AssertionError (''Invalid Split: '' @ split)), [])"
  by (simp add: RemoteHomologyDataset_init_def)

lemma ESMDataset_init_opens:
  "dataset_name \<in> set [''cath'', ''pdb''] \<Longrightarrow>
     snd (ESMDataset_init fs split dataset_name data_dir max_seq_len min_seq_len)
       = [path_join data_dir (dataset_name @ ''/'' @ split @ ''.pkl'')]"
  by (auto simp: ESMDataset_init_def Let_def split: sum.splits option.splits)

text \<open>
  C6.  \<open>ESMDataset.__init__\<close> at the split name \<open>"bogus"\<close>: the constructor checks
  only the dataset name, passes the path built from the split to \<open>open\<close>, and fails
  with the file system's error when the file is missing; when such a file exists the
  construction succeeds.  \<open>RemoteHomologyDataset.__init__\<close> at the same split fails
  with its invalid-split assertion and opens nothing.
\<close>

theorem ESMDataset_init_unknown_split:
  "ESMDataset_init (Map.empty :: unit item list fs) ''bogus'' ''cath'' ''/data'' (Some 40) 10
     = (Inl (FileNotFoundError ''/data/cath/bogus.pkl''), [''/data/cath/bogus.pkl''])
   \<and> ESMDataset_init [''/data/cath/bogus.pkl'' \<mapsto> scenario_data] ''bogus'' ''cath'' ''/data'' None 10
     = (Inr scenario_data, [''/data/cath/bogus.pkl''])
   \<and> RemoteHomologyDataset_init (Map.empty :: (string \<rightharpoonup> int) list fs) ''bogus'' ''fold'' ''/data''
     = (Inl (AssertionError ''Invalid Split: bogus''), [])"
  by (simp add: ESMDataset_init_def RemoteHomologyDataset_init_def path_join_def open_load_def Let_def)

text \<open>
  C7.  \<open>RemoteHomologyDataset.__init__\<close> with a \<open>label_to_predict\<close> outside
  \<open>family\<close>, \<open>superfamily\<close>, \<open>fold\<close>, \<open>class\<close> returns an error, whatever the split
  and the file system (with a valid split and an existing file it is the invalid-label
  assertion); with a valid label, a valid split and an existing file the construction
  succeeds, the object holds the loaded data and the key \<open>label + "_label"\<close>, and
  every \<open>__getitem__\<close> on it reads the label under that key.
\<close>

theorem RemoteHomologyDataset_init_label:
  fixes fs :: "(string \<rightharpoonup> 'v) list fs"
  shows "(label \<notin> set [''family'', ''superfamily'', ''fold'', ''class''] \<longrightarrow>
            (\<exists>e opened. RemoteHomologyDataset_init fs split label data_dir = (Inl e, opened)))
       \<and> (label \<notin> set [''family'', ''superfamily'', ''fold'', ''class'']
            \<and> split \<in> set [''train'', ''val'', ''test_family_holdout'',
                              ''test_superfamily_holdout'', ''test_fold_holdout'']
            \<and> fs (path_join data_dir (''remote_homology/'' @ split @ ''.pkl'')) = Some d \<longrightarrow>
            fst (RemoteHomologyDataset_init fs split label data_dir)
              = Inl (AssertionError (''Invalid label: '' @ label @ '' to predict'')))
       \<and> (label \<in> set [''family'', ''superfamily'', ''fold'', ''class'']
            \<and> split \<in> set [''train'', ''val'', ''test_family_holdout'',
                              ''test_superfamily_holdout'', ''test_fold_holdout'']
            \<and> fs (path_join data_dir (''remote_homology/'' @ split @ ''.pkl'')) = Some d \<longrightarrow>
            (\<exists>self. fst (RemoteHomologyDataset_init fs split label data_dir) = Inr self
               \<and> rh_data self = d
               \<and> label_to_predict self = label @ ''_label''
               \<and> (\<forall>index entry prim. py_index d index = Inr entry
                      \<and> py_getkey entry ''primary'' = Inr prim \<longrightarrow>
                      RemoteHomologyDataset_getitem self index
                        = (case py_getkey entry (label @ ''_label'') of
                             Inl e \<Rightarrow> Inl e | Inr lab \<Rightarrow> Inr (prim, lab)))))"
proof (intro conjI impI)
  assume "label \<notin> set [''family'', ''superfamily'', ''fold'', ''class'']"
  then show "\<exists>e opened. RemoteHomologyDataset_init fs split label data_dir = (Inl e, opened)"
    by (simp add: RemoteHomologyDataset_init_def Let_def split: sum.splits)
next
  assume "label \<notin> set [''family'', ''superfamily'', ''fold'', ''class'']
            \<and> split \<in> set [''train'', ''val'', ''test_family_holdout'',
                              ''test_superfamily_holdout'', ''test_fold_holdout'']
            \<and> fs (path_join data_dir (''remote_homology/'' @ split @ ''.pkl'')) = Some d"
  then show "fst (RemoteHomologyDataset_init fs split label data_dir)
              = Inl (AssertionError (''Invalid label: '' @ label @ '' to predict''))"
    by (simp add: RemoteHomologyDataset_init_def Let_def open_load_def)
next
  assume a: "label \<in> set [''family'', ''superfamily'', ''fold'', ''class'']
            \<and> split \<in> set [''train'', ''val'', ''test_family_holdout'',
                              ''test_superfamily_holdout'', ''test_fold_holdout'']
            \<and> fs (path_join data_dir (''remote_homology/'' @ split @ ''.pkl'')) = Some d"
  let ?self = "\<lparr>rh_data = d, label_to_predict = label @ ''_label''\<rparr>"
  from a have "fst (RemoteHomologyDataset_init fs split label data_dir) = Inr ?self"
    by (simp add: RemoteHomologyDataset_init_def Let_def open_load_def)
  moreover have "\<forall>index entry prim. py_index d index = Inr entry
                      \<and> py_getkey entry ''primary'' = Inr prim \<longrightarrow>
                      RemoteHomologyDataset_getitem ?self index
                        = (case py_getkey entry (label @ ''_label'') of
                             Inl e \<Rightarrow> Inl e | Inr lab \<Rightarrow> Inr (prim, lab))"
    by (simp add: RemoteHomologyDataset_getitem_def)
  ultimately show "\<exists>self. fst (RemoteHomologyDataset_init fs split label data_dir) = Inr self
               \<and> rh_data self = d
               \<and> label_to_predict self = label @ ''_label''
               \<and> (\<forall>index entry prim. py_index d index = Inr entry
                      \<and> py_getkey entry ''primary'' = Inr prim \<longrightarrow>
                      RemoteHomologyDataset_getitem self index
                        = (case py_getkey entry (label @ ''_label'') of
                             Inl e \<Rightarrow> Inl e | Inr lab \<Rightarrow> Inr (prim, lab)))"
    by (intro exI [of _ ?self]) simp
qed


theorem RemoteHomologyDataset_init_label_witness:
  "''bogus'' \<notin> set [''family'', ''superfamily'', ''fold'', ''class'']
   \<and> ''fold'' \<in> set [''family'', ''superfamily'', ''fold'', ''class'']
   \<and> ''train'' \<in> set [''train'', ''val'', ''test_family_holdout'',
                          ''test_superfamily_holdout'', ''test_fold_holdout'']
   \<and> path_join ''/data'' (''remote_homology/'' @ ''train'' @ ''.pkl'') = ''/data/remote_homology/train.pkl''
   \<and> (\<exists>e opened. RemoteHomologyDataset_init
          [''/data/remote_homology/train.pkl'' \<mapsto>
             [[''primary'' \<mapsto> Inl ''MKV'', ''fold_label'' \<mapsto> Inr (7::int)]]]
          ''train'' ''bogus'' ''/data'' = (Inl e, opened))
   \<and> fst (RemoteHomologyDataset_init
          [''/data/remote_homology/train.pkl'' \<mapsto>
             [[''primary'' \<mapsto> Inl ''MKV'', ''fold_label'' \<mapsto> Inr (7::int)]]]
          ''train'' ''bogus'' ''/data'') = Inl (AssertionError ''Invalid label: bogus to predict'')
   \<and> (\<exists>self. fst (RemoteHomologyDataset_init
          [''/data/remote_homology/train.pkl'' \<mapsto>
             [[''primary'' \<mapsto> Inl ''MKV'', ''fold_label'' \<mapsto> Inr (7::int)]]]
          ''train'' ''fold'' ''/data'') = Inr self
        \<and> label_to_predict self = ''fold_label''
        \<and> RemoteHomologyDataset_getitem self 0 = Inr (Inl ''MKV'', Inr 7))"
proof -
  let ?entry = "[''primary'' \<mapsto> Inl ''MKV'', ''fold_label'' \<mapsto> Inr (7::int)] :: string \<rightharpoonup> string + int"
  let ?fs = "[''/data/remote_homology/train.pkl'' \<mapsto> [?entry]]"
  have l1: "''bogus'' \<notin> set [''family'', ''superfamily'', ''fold'', ''class'']" by simp
  have l2: "''fold'' \<in> set [''family'', ''superfamily'', ''fold'', ''class'']" by simp
  have sp: "''train'' \<in> set [''train'', ''val'', ''test_family_holdout'',
                          ''test_superfamily_holdout'', ''test_fold_holdout'']" by simp
  have pj: "path_join ''/data'' (''remote_homology/'' @ ''train'' @ ''.pkl'') = ''/data/remote_homology/train.pkl''"
    by (simp add: path_join_def)
  have f: "?fs (path_join ''/data'' (''remote_homology/'' @ ''train'' @ ''.pkl'')) = Some [?entry]"
    unfolding pj by simp
  note bad = RemoteHomologyDataset_init_label [of "''bogus''" ?fs "''train''" "''/data''" "[?entry]"]
  note good = RemoteHomologyDataset_init_label [of "''fold''" ?fs "''train''" "''/data''" "[?entry]"]
  from bad l1 have b1: "\<exists>e opened. RemoteHomologyDataset_init ?fs ''train'' ''bogus'' ''/data'' = (Inl e, opened)"
    by blast
  from bad l1 sp f have b2: "fst (RemoteHomologyDataset_init ?fs ''train'' ''bogus'' ''/data'')
      = Inl (AssertionError (''Invalid label: '' @ ''bogus'' @ '' to predict''))"
    by blast
  from good l2 sp f obtain self where
      s1: "fst (RemoteHomologyDataset_init ?fs ''train'' ''fold'' ''/data'') = Inr self"
    and s2: "label_to_predict self = ''fold'' @ ''_label''"
    and s3: "\<forall>index entry prim. py_index [?entry] index = Inr entry
                      \<and> py_getkey entry ''primary'' = Inr prim \<longrightarrow>
                      RemoteHomologyDataset_getitem self index
                        = (case py_getkey entry (''fold'' @ ''_label'') of
                             Inl e \<Rightarrow> Inl e | Inr lab \<Rightarrow> Inr (prim, lab))"
    by blast
  have "py_index [?entry] 0 = Inr ?entry \<and> py_getkey ?entry ''primary'' = Inr (Inl ''MKV'')"
    by (simp add: py_index_def py_getkey_def)
  with s3 have "RemoteHomologyDataset_getitem self 0
      = (case py_getkey ?entry (''fold'' @ ''_label'') of
                             Inl e \<Rightarrow> Inl e | Inr lab \<Rightarrow> Inr (Inl ''MKV'', lab))"
    by blast
  then have s4: "RemoteHomologyDataset_getitem self 0 = Inr (Inl ''MKV'', Inr 7)"
    by (simp add: py_getkey_def)
  from s2 have s2': "label_to_predict self = ''fold_label''" by simp
  from b2 have b2': "fst (RemoteHomologyDataset_init ?fs ''train'' ''bogus'' ''/data'')
      = Inl (AssertionError ''Invalid label: bogus to predict'')" by simp
  have g: "\<exists>self. fst (RemoteHomologyDataset_init ?fs ''train'' ''fold'' ''/data'') = Inr self
        \<and> label_to_predict self = ''fold_label''
        \<and> RemoteHomologyDataset_getitem self 0 = Inr (Inl ''MKV'', Inr 7)"
    using s1 s2' s4 by blast
  show ?thesis by (intro conjI l1 l2 sp pj b1 b2' g)
qed

section \<open>Claims about collate_fn\<close>

text \<open>
  C8.  \<open>collate_fn\<close> makes two converter calls: first the sequence converter on
  \<open>inp_seqs\<close>, the list that has, at every position \<open>b\<close> of the batch, the pair of
  the empty label and the sequence component of the \<open>b\<close>-th item; then the structural
  converter on the batch itself.  The tokens it returns are those of the first call,
  the other four values those of the second.
\<close>

theorem collate_fn_shared_order:
  "\<exists>res. collate_fn esm2_batch_converter esm_if_batch_converter batch
            = (res, [Esm2_call (inp_seqs batch), Esm_if_call batch])
     \<and> length (inp_seqs batch) = length batch
     \<and> (\<forall>b < length batch. inp_seqs batch ! b = ([], snd (snd (batch ! b))))
     \<and> map snd (inp_seqs batch) = map (\<lambda>item. snd (snd item)) batch
     \<and> (case res of (c, cf, st, tok, pm) \<Rightarrow>
           tok = snd (snd (esm2_batch_converter (inp_seqs batch)))
           \<and> (case esm_if_batch_converter batch of (c', cf', st', x, pm') \<Rightarrow>
                 c = c' \<and> cf = cf' \<and> st = st' \<and> pm = pm'))"
  by (auto simp: collate_fn_def inp_seqs_def split: prod.splits)

theorem collate_fn_shared_order_witness:
  "collate_fn (\<lambda>ps. ((), (), map snd ps)) (\<lambda>b. (map fst b, (), map (\<lambda>item. snd (snd item)) b, (), ()))
       [((1::nat), None :: unit option, ''AC''), (2, None, ''D'')]
     = (([1, 2], (), [''AC'', ''D''], [''AC'', ''D''], ()),
        [Esm2_call [([], ''AC''), ([], ''D'')],
         Esm_if_call [(1, None, ''AC''), (2, None, ''D'')]])
   \<and> inp_seqs [((1::nat), None :: unit option, ''AC''), (2, None, ''D'')] ! 1 = ([], ''D'')"
proof -
  let ?batch = "[((1::nat), None :: unit option, ''AC''), (2, None, ''D'')]"
  let ?c2 = "\<lambda>ps :: (string \<times> string) list. ((), (), map snd ps)"
  let ?cif = "\<lambda>b :: (nat \<times> unit option \<times> string) list. (map fst b, (), map (\<lambda>item. snd (snd item)) b, (), ())"
  from collate_fn_shared_order [of ?c2 ?cif ?batch]
  obtain res where r: "collate_fn ?c2 ?cif ?batch = (res, [Esm2_call (inp_seqs ?batch), Esm_if_call ?batch])"
    and n: "\<forall>b < length ?batch. inp_seqs ?batch ! b = ([], snd (snd (?batch ! b)))"
    and m: "map snd (inp_seqs ?batch) = map (\<lambda>item. snd (snd item)) ?batch"
    and c: "case res of (c, cf, st, tok, pm) \<Rightarrow>
           tok = snd (snd (?c2 (inp_seqs ?batch)))
           \<and> (case ?cif ?batch of (c', cf', st', x, pm') \<Rightarrow>
                 c = c' \<and> cf = cf' \<and> st = st' \<and> pm = pm')"
    by (elim exE conjE)
  from n have n1: "inp_seqs ?batch ! 1 = ([], ''D'')" by simp
  have i: "inp_seqs ?batch = [([], ''AC''), ([], ''D'')]" by (simp add: inp_seqs_def)
  from c m have "res = ([1, 2], (), [''AC'', ''D''], [''AC'', ''D''], ())"
    by (cases res) simp
  with r i n1 show ?thesis by simp
qed

section \<open>Batches\<close>

lemma foldl_flatten:
  "foldl (\<lambda>acc (_, bin_items). acc @ bin_items) a bs = a @ concat (map snd bs)"
  by (induction bs arbitrary: a) (auto split: prod.splits)

lemma bins_flattened_concat: "bins_flattened bs = concat (map snd bs)"
  by (simp add: bins_flattened_def foldl_flatten)

lemma py_slice_nonneg:
  assumes "0 \<le> i" and "0 \<le> j"
  shows "py_slice xs i j = take (nat j - nat i) (drop (nat i) xs)"
proof (cases "nat i < length xs")
  case True
  have "take (min (length xs) (nat j) - nat i) (drop (nat i) xs)
          = take (nat j - nat i) (drop (nat i) xs)"
  proof (cases "nat j \<le> length xs")
    case True
    then show ?thesis by (simp add: min_def)
  next
    case False
    then show ?thesis by (simp add: min_def)
  qed
  with True assms show ?thesis by (simp add: py_slice_def slice_bound_def Let_def min_def)
next
  case False
  with assms show ?thesis by (simp add: py_slice_def slice_bound_def Let_def min_def)
qed

lemma all_batches_pos:
  assumes "0 < batch_size"
  shows "all_batches flat batch_size =
           Inr (map (\<lambda>k. take (nat batch_size) (drop (k * nat batch_size) flat))
                  [0..<range_len 0 (int (length flat)) batch_size])"
proof -
  have "py_slice flat (0 + int k * batch_size) (0 + int k * batch_size + batch_size)
          = take (nat batch_size) (drop (k * nat batch_size) flat)" for k
  proof -
    have i: "0 \<le> 0 + int k * batch_size" using assms by simp
    have j: "0 \<le> 0 + int k * batch_size + batch_size" using assms by simp
    have ni: "nat (0 + int k * batch_size) = k * nat batch_size"
      using assms by (simp add: nat_mult_distrib)
    have nj: "nat (0 + int k * batch_size + batch_size) = k * nat batch_size + nat batch_size"
      using assms by (simp add: nat_add_distrib nat_mult_distrib)
    show ?thesis unfolding py_slice_nonneg [OF i j] ni nj by simp
  qed
  then show ?thesis
    using assms by (simp add: all_batches_def py_range_def range_elems_def comp_def)
qed

lemma concat_chunks:
  "concat (map (\<lambda>k. take b (drop (k * b) xs)) [0..<m]) = take (m * b) xs"
proof (induction m)
  case 0
  then show ?case by simp
next
  case (Suc m)
  have "take (m * b) xs @ take b (drop (m * b) xs) = take (m * b + b) xs"
    by (simp add: take_add)
  with Suc show ?case by (simp add: add.commute)
qed

lemma range_len_covers:
  assumes "0 < batch_size"
  shows "n \<le> range_len 0 (int n) batch_size * nat batch_size"
proof -
  have "\<not> range_len 0 (int n) batch_size < range_len 0 (int n) batch_size" by simp
  then have "\<not> 0 + int (range_len 0 (int n) batch_size) * batch_size < int n"
    unfolding range_len_pos_iff [OF assms] .
  then have "int n \<le> int (range_len 0 (int n) batch_size) * int (nat batch_size)"
    using assms by simp
  then have "int n \<le> int (range_len 0 (int n) batch_size * nat batch_size)"
    by (simp only: of_nat_mult)
  then show ?thesis by (simp only: of_nat_le_iff)
qed

lemma all_batches_concat:
  assumes "0 < batch_size" and "all_batches flat batch_size = Inr chunks"
  shows "concat chunks = flat"
proof -
  from assms have "chunks = map (\<lambda>k. take (nat batch_size) (drop (k * nat batch_size) flat))
                  [0..<range_len 0 (int (length flat)) batch_size]"
    by (simp add: all_batches_pos)
  then have "concat chunks = take (range_len 0 (int (length flat)) batch_size * nat batch_size) flat"
    by (simp only: concat_chunks)
  then show ?thesis using range_len_covers [OF assms(1), of "length flat"] by simp
qed

lemma mset_concat_cong:
  assumes "mset xss = mset yss"
  shows "mset (concat xss) = mset (concat yss)"
proof -
  have c: "mset (concat zss) = sum_mset (image_mset mset (mset zss))" for zss :: "'a list list"
    by (induction zss) simp_all
  show ?thesis unfolding c assms ..
qed

lemma create_batches_pos:
  assumes "0 < batch_size"
  shows "\<exists>chunks batches g'. all_batches (bins_flattened bs) batch_size = Inr chunks
           \<and> create_batches g bs batch_size = Inr (batches, g')
           \<and> (batches, g') = shuffle chunks g"
proof -
  obtain chunks where c: "all_batches (bins_flattened bs) batch_size = Inr chunks"
    using all_batches_pos [OF assms] by blast
  obtain batches g' where s: "shuffle chunks g = (batches, g')" by (cases "shuffle chunks g")
  from c s have "create_batches g bs batch_size = Inr (batches, g')"
    by (simp add: create_batches_def)
  with c s show ?thesis by auto
qed

text \<open>
  C10.  For a positive \<open>batch_size\<close>, \<open>create_batches\<close> returns a list of batches
  that is a permutation of the list of chunks cut from the flattened bins (whole
  batches are permuted, each batch is one of the chunks with its contents in their
  order); the chunks concatenated give the flattened bins back, so every index occurs
  in the batches exactly as often as in the flattened bins, and an index that occurs
  once there is in exactly one batch.
\<close>

theorem create_batches_partition:
  assumes "0 < batch_size"
  shows "\<exists>batches g' chunks. create_batches g bs batch_size = Inr (batches, g')
      \<and> all_batches (bins_flattened bs) batch_size = Inr chunks
      \<and> bins_flattened bs = concat (map snd bs)
      \<and> concat chunks = concat (map snd bs)
      \<and> mset batches = mset chunks
      \<and> mset (concat batches) = mset (concat (map snd bs))
      \<and> (\<forall>i. count_list (concat batches) i = count_list (concat (map snd bs)) i)
      \<and> (\<forall>i. count_list (concat (map snd bs)) i = 1 \<longrightarrow>
             length (filter (\<lambda>b. i \<in> set b) batches) = 1)"
proof -
  from create_batches_pos [OF assms, of bs g]
  obtain chunks batches g' where c: "all_batches (bins_flattened bs) batch_size = Inr chunks"
    and r: "create_batches g bs batch_size = Inr (batches, g')"
    and s: "(batches, g') = shuffle chunks g"
    by (elim exE conjE)
  note f = bins_flattened_concat [of bs]
  have cc: "concat chunks = concat (map snd bs)"
    using all_batches_concat [OF assms c] f by simp
  have "mset (fst (shuffle chunks g)) = mset chunks" by (rule mset_shuffle)
  then have m: "mset batches = mset chunks" using s by (metis fst_conv)
  have mc: "mset (concat batches) = mset (concat (map snd bs))"
    using mset_concat_cong [OF m] cc by simp
  have cnt: "\<forall>i. count_list (concat batches) i = count_list (concat (map snd bs)) i"
  proof
    fix i
    have "count (mset (concat batches)) i = count (mset (concat (map snd bs))) i"
      by (simp only: mc)
    then show "count_list (concat batches) i = count_list (concat (map snd bs)) i"
      by (simp only: count_mset)
  qed
  have one: "\<forall>i. count_list (concat (map snd bs)) i = 1 \<longrightarrow>
             length (filter (\<lambda>b. i \<in> set b) batches) = 1"
  proof (intro allI impI)
    fix i assume "count_list (concat (map snd bs)) i = 1"
    with cnt have "count_list (concat batches) i = 1" by simp
    then show "length (filter (\<lambda>b. i \<in> set b) batches) = 1" by (rule count_concat_one)
  qed
  show ?thesis
    by (rule exI [of _ batches], rule exI [of _ g'], rule exI [of _ chunks])
       (intro conjI r c f cc m mc cnt one)
qed

theorem create_batches_partition_witness:
  "(0::int) < 2
   \<and> (\<exists>batches g'. create_batches (\<lambda>k. 0) [(10, [1, 0]), (25, [2, 3, 4])] 2 = Inr (batches, g')
         \<and> all_batches (bins_flattened [(10, [1, 0]), (25, [2, 3, 4])]) 2 = Inr [[1, 0], [2, 3], [4]]
         \<and> mset batches = {#[1, 0], [2, 3], [4]#}
         \<and> mset (concat batches) = {#0, 1, 2, 3, 4#}
         \<and> count_list (concat (map snd [(10::int, [1, 0]), (25, [2, 3, 4::nat])])) 3 = 1
         \<and> length (filter (\<lambda>b. 3 \<in> set b) batches) = 1)"
proof -
  let ?bs = "[(10, [1, 0]), (25, [2, 3, 4])] :: bins"
  have h: "(0::int) < 2" by simp
  from create_batches_partition [OF h, of "\<lambda>k. 0" ?bs]
  obtain batches g' chunks where r: "create_batches (\<lambda>k. 0) ?bs 2 = Inr (batches, g')"
    and c: "all_batches (bins_flattened ?bs) 2 = Inr chunks"
    and m: "mset batches = mset chunks"
    and mc: "mset (concat batches) = mset (concat (map snd ?bs))"
    and one: "\<forall>i. count_list (concat (map snd ?bs)) i = 1 \<longrightarrow>
             length (filter (\<lambda>b. i \<in> set b) batches) = 1"
    by (elim exE conjE)
  have ev: "all_batches (bins_flattened ?bs) 2 = Inr [[1, 0], [2, 3], [4]]"
    by (simp add: all_batches_pos bins_flattened_concat range_len_def upt_rec)
  with c have ch: "chunks = [[1, 0], [2, 3], [4]]" by simp
  have m': "mset batches = {#[1, 0], [2, 3], [4]#}" using m ch by simp
  have mc': "mset (concat batches) = {#0, 1, 2, 3, 4#}" using mc by simp
  have c3: "count_list (concat (map snd ?bs)) 3 = 1" by simp
  with one have o3: "length (filter (\<lambda>b. 3 \<in> set b) batches) = 1" by blast
  show ?thesis
    by (rule conjI [OF h], rule exI [of _ batches], rule exI [of _ g'])
       (intro conjI r ev m' mc' c3 o3)
qed

section \<open>The scenario\<close>

lemma ESMBatchSampler_init_Inr:
  assumes "create_bins g self_data mn mx bin_size = Inr (bs, g1)"
    and "create_batches g1 bs batch_size = Inr (batches, g2)"
  shows "ESMBatchSampler_init g self_data mn mx bin_size batch_size =
           Inr (\<lparr>self_batch_size = batch_size, drop_last = True,
                 self_bins = bs, self_batches = batches\<rparr>, g2)"
  using assms by (simp add: ESMBatchSampler_init_def)

lemma scenario_bins:
  assumes "data_lens self_data = [10, 12, 25, 26, 40]"
    and "create_bins g self_data 10 40 15 = Inr (bs, g1)"
  shows "\<exists>b10 b25. bs = [(10, b10), (25, b25)] \<and> mset b10 = {#0, 1#} \<and> mset b25 = {#2, 3#}"
proof -
  have "length (data_lens self_data) = length self_data" by (simp add: data_lens_def)
  with assms(1) have len: "length self_data = 5" by simp
  have nz: "(15::int) \<noteq> 0" by simp
  have keys: "map fst bs = [10, 25]"
    using create_bins_keys [OF nz assms(2)] by (simp add: range_elems_scenario)
  then obtain b10 b25 where bs: "bs = [(10, b10), (25, b25)]" by auto
  have f10: "filter (\<lambda>i. first_bin 15 (data_lens self_data ! i) [10, 25] = Some 10)
               [0..<length self_data] = [0, 1]"
    by (simp add: assms(1) len upt_5)
  have f25: "filter (\<lambda>i. first_bin 15 (data_lens self_data ! i) [10, 25] = Some 25)
               [0..<length self_data] = [2, 3]"
    by (simp add: assms(1) len upt_5)
  have "(10, b10) \<in> set bs" by (simp add: bs)
  from create_bins_content [OF nz assms(2) this]
  have "mset b10 = mset [0, 1]" by (simp only: range_elems_scenario f10)
  then have m10: "mset b10 = {#0, 1#}" by simp
  have "(25, b25) \<in> set bs" by (simp add: bs)
  from create_bins_content [OF nz assms(2) this]
  have "mset b25 = mset [2, 3]" by (simp only: range_elems_scenario f25)
  then have m25: "mset b25 = {#2, 3#}" by simp
  from bs m10 m25 show ?thesis by blast
qed

lemma two_chunks:
  assumes "length xs = 2" and "length ys = 2"
  shows "all_batches (xs @ ys) 2 = Inr [xs, ys]"
proof -
  have "range_len 0 (int (length (xs @ ys))) 2 = 2"
    using assms by (simp add: range_len_def)
  then show ?thesis
    using assms by (simp add: all_batches_pos upt_rec)
qed

text \<open>
  C3.  With five records of the lengths 10, 12, 25, 26 and 40, \<open>min_seq_len = 10\<close>,
  \<open>max_seq_len = 40\<close>, \<open>bin_size = 15\<close> and \<open>batch_size = 2\<close>, the sampler is
  constructed for every state of the generator; its bins have the keys 10 and 25, the
  first holding the indices 0 and 1 and the second the indices 2 and 3 (each in some
  order); its batches are these two bins, in one or the other order; and index 4, the
  record of length 40, is in no bin and in no batch.
\<close>

theorem scenario_batches:
  assumes "data_lens self_data = [10, 12, 25, 26, 40]"
  shows "\<exists>s g' b10 b25. ESMBatchSampler_init g self_data 10 40 15 2 = Inr (s, g')
      \<and> self_bins s = [(10, b10), (25, b25)]
      \<and> mset b10 = {#0, 1#} \<and> mset b25 = {#2, 3#}
      \<and> mset (self_batches s) = {#b10, b25#}
      \<and> 4 \<notin> set (concat (map snd (self_bins s)))
      \<and> 4 \<notin> set (concat (self_batches s))"
proof -
  obtain bs g1 where cb: "create_bins g self_data 10 40 15 = Inr (bs, g1)"
    using create_bins_total [of 15 g self_data 10 40] by auto
  from scenario_bins [OF assms cb]
  obtain b10 b25 where bs: "bs = [(10, b10), (25, b25)]"
    and m10: "mset b10 = {#0, 1#}" and m25: "mset b25 = {#2, 3#}" by blast
  have l10: "length b10 = 2" using m10 by (metis size_mset size_add_mset size_empty numeral_2_eq_2)
  have l25: "length b25 = 2" using m25 by (metis size_mset size_add_mset size_empty numeral_2_eq_2)
  have flat: "bins_flattened bs = b10 @ b25" by (simp add: bins_flattened_concat bs)
  have ch: "all_batches (bins_flattened bs) 2 = Inr [b10, b25]"
    unfolding flat using l10 l25 by (rule two_chunks)
  obtain batches g2 where sh: "shuffle [b10, b25] g1 = (batches, g2)"
    by (cases "shuffle [b10, b25] g1")
  have r: "create_batches g1 bs 2 = Inr (batches, g2)"
    by (simp add: create_batches_def ch sh)
  have "mset (fst (shuffle [b10, b25] g1)) = mset [b10, b25]" by (rule mset_shuffle)
  then have mb: "mset batches = {#b10, b25#}" by (simp add: sh)
  have "mset (concat batches) = mset (concat [b10, b25])"
    by (rule mset_concat_cong) (simp add: mb)
  then have "set_mset (mset (concat batches)) = set_mset (mset b10 + mset b25)" by simp
  then have sc: "set (concat batches) = {0, 1, 2, 3}"
    unfolding m10 m25 by auto
  have sb: "set (concat (map snd bs)) = {0, 1, 2, 3}"
  proof -
    have "set (concat (map snd bs)) = set_mset (mset b10 + mset b25)" by (simp add: bs)
    then show ?thesis unfolding m10 m25 by auto
  qed
  let ?s = "\<lparr>self_batch_size = 2, drop_last = True, self_bins = bs, self_batches = batches\<rparr>"
  have i: "ESMBatchSampler_init g self_data 10 40 15 2 = Inr (?s, g2)"
    using cb r by (rule ESMBatchSampler_init_Inr)
  have 1: "self_bins ?s = [(10, b10), (25, b25)]" by (simp add: bs)
  have 2: "mset (self_batches ?s) = {#b10, b25#}" by (simp add: mb)
  have 3: "4 \<notin> set (concat (map snd (self_bins ?s)))" by (simp add: sb del: set_concat)
  have 4: "4 \<notin> set (concat (self_batches ?s))" by (simp add: sc del: set_concat)
  show ?thesis
    by (rule exI [of _ ?s], rule exI [of _ g2], rule exI [of _ b10], rule exI [of _ b25])
       (intro conjI i 1 m10 m25 2 3 4)
qed

lemma scenario_run:
  "map_sum id fst (ESMBatchSampler_init (\<lambda>k. 0) scenario_data 10 40 15 2)
     = Inr \<lparr>self_batch_size = 2, drop_last = True,
            self_bins = [(10, [1, 0]), (25, [3, 2])],
            self_batches = [[3, 2], [1, 0]]\<rparr>"
proof -
  have a: "assign_bins scenario_data 10 40 15 = Inr [(10, [0, 1]), (25, [2, 3])]"
    unfolding assign_bins_eq [of 15 scenario_data 10 40, simplified] range_elems_scenario
    by (simp only: list.map scenario_first_bin_10 scenario_first_bin_25)
  have s: "shuffle [a, b] (\<lambda>k. 0) = ([b, a], \<lambda>k. 0)" for a b :: 'a
    by (simp add: shuffle_def randbelow_def)
  have b: "create_bins (\<lambda>k. 0) scenario_data 10 40 15 = Inr ([(10, [1, 0]), (25, [3, 2])], \<lambda>k. 0)"
    by (simp add: create_bins_def a s)
  have c: "create_batches (\<lambda>k. 0) [(10, [1, 0]), (25, [3, 2])] 2 = Inr ([[3, 2], [1, 0]], \<lambda>k. 0)"
    by (simp add: create_batches_def bins_flattened_concat two_chunks [of "[1, 0]" "[3, 2]", simplified] s)
  show ?thesis unfolding ESMBatchSampler_init_Inr [OF b c] by simp
qed

theorem scenario_batches_witness:
  "data_lens scenario_data = [10, 12, 25, 26, 40]
   \<and> (\<exists>s g' b10 b25. ESMBatchSampler_init (\<lambda>k. 0) scenario_data 10 40 15 2 = Inr (s, g')
      \<and> self_bins s = [(10, b10), (25, b25)]
      \<and> mset b10 = {#0, 1#} \<and> mset b25 = {#2, 3#}
      \<and> mset (self_batches s) = {#b10, b25#}
      \<and> 4 \<notin> set (concat (map snd (self_bins s)))
      \<and> 4 \<notin> set (concat (self_batches s)))
   \<and> map_sum id fst (ESMBatchSampler_init (\<lambda>k. 0) scenario_data 10 40 15 2)
     = Inr \<lparr>self_batch_size = 2, drop_last = True,
            self_bins = [(10, [1, 0]), (25, [3, 2])],
            self_batches = [[3, 2], [1, 0]]\<rparr>"
  by (intro conjI data_lens_scenario scenario_batches [OF data_lens_scenario] scenario_run)

section \<open>The trailing remainder\<close>

text \<open>
  With a positive \<open>batch_size\<close> and a flattened list that is not empty, the last
  chunk that \<open>all_batches\<close> cuts has \<open>(len - 1) mod batch_size + 1\<close> elements; when
  the length is not a multiple of \<open>batch_size\<close> it is the remainder, shorter than
  \<open>batch_size\<close>, and it is kept.
\<close>

lemma range_len_nat:
  assumes "0 < b" and "0 < n"
  shows "range_len 0 (int n) (int b) = Suc ((n - 1) div b)"
proof -
  have "int n - 0 - 1 = int (n - 1)" using assms by simp
  then have "(int n - 0 - 1) div int b = int ((n - 1) div b)" by (simp only: zdiv_int)
  then have "nat ((int n - 0 - 1) div int b + 1) = Suc ((n - 1) div b)" by simp
  then show ?thesis using assms by (simp add: range_len_def)
qed

lemma all_batches_last:
  assumes "0 < batch_size" and "flat \<noteq> []"
  shows "\<exists>chunks. all_batches flat batch_size = Inr chunks \<and> chunks \<noteq> []
           \<and> length (last chunks) = Suc ((length flat - 1) mod nat batch_size)"
proof -
  define b where "b = nat batch_size"
  define n where "n = length flat"
  have b0: "0 < b" and bi: "batch_size = int b" using assms by (simp_all add: b_def)
  have n0: "0 < n" using assms by (simp add: n_def)
  define q where "q = (n - 1) div b"
  have m: "range_len 0 (int (length flat)) batch_size = Suc q"
    unfolding bi q_def n_def [symmetric] using b0 n0 by (rule range_len_nat)
  define chunks where "chunks = map (\<lambda>k. take b (drop (k * b) flat)) [0..<Suc q]"
  have c: "all_batches flat batch_size = Inr chunks"
    unfolding all_batches_pos [OF assms(1)] m chunks_def b_def ..
  have ne: "chunks \<noteq> []" by (simp add: chunks_def)
  have "last chunks = take b (drop (q * b) flat)"
    by (simp add: chunks_def)
  then have "length (last chunks) = min (n - q * b) b" by (simp add: n_def)
  moreover have "n - 1 = q * b + (n - 1) mod b" by (simp add: q_def)
  then have "n - q * b = Suc ((n - 1) mod b)" using n0 by linarith
  moreover have "(n - 1) mod b < b" using b0 by simp
  ultimately have "length (last chunks) = Suc ((n - 1) mod b)" by simp
  with c ne show ?thesis unfolding n_def b_def by blast
qed

lemma all_batches_short_last:
  assumes "0 < batch_size" and "length flat mod nat batch_size \<noteq> 0"
  shows "\<exists>chunks. all_batches flat batch_size = Inr chunks \<and> chunks \<noteq> []
           \<and> length (last chunks) = length flat mod nat batch_size
           \<and> length (last chunks) < nat batch_size"
proof -
  from assms(2) have ne: "flat \<noteq> []" by auto
  then have n: "length flat = Suc (length flat - 1)" by simp
  have "length flat mod nat batch_size =
          (if Suc ((length flat - 1) mod nat batch_size) = nat batch_size then 0
           else Suc ((length flat - 1) mod nat batch_size))"
    using mod_Suc [of "length flat - 1" "nat batch_size"] n by simp
  with assms(2) have e: "Suc ((length flat - 1) mod nat batch_size) = length flat mod nat batch_size"
    by (simp split: if_splits)
  have "length flat mod nat batch_size < nat batch_size" using assms(1) by simp
  with all_batches_last [OF assms(1) ne] e show ?thesis by auto
qed

lemma data_lens_remainder: "data_lens remainder_data = [10, 11, 12]"
  by (simp add: data_lens_def remainder_data_def)

lemma upt_3: "[0..<3] = [0, 1, 2]"
  by (simp add: upt_rec)

lemma length_remainder: "length remainder_data = 3"
  by (simp add: remainder_data_def)

lemma remainder_bins:
  assumes "create_bins g remainder_data 10 40 15 = Inr (bs, g1)"
  shows "\<exists>b10. bs = [(10, b10), (25, [])] \<and> mset b10 = {#0, 1, 2#}"
proof -
  note len = length_remainder
  have nz: "(15::int) \<noteq> 0" by simp
  have keys: "map fst bs = [10, 25]"
    using create_bins_keys [OF nz assms] by (simp add: range_elems_scenario)
  then obtain b10 b25 where bs: "bs = [(10, b10), (25, b25)]" by auto
  have f10: "filter (\<lambda>i. first_bin 15 (data_lens remainder_data ! i) [10, 25] = Some 10)
               [0..<length remainder_data] = [0, 1, 2]"
    by (simp add: data_lens_remainder len upt_3)
  have f25: "filter (\<lambda>i. first_bin 15 (data_lens remainder_data ! i) [10, 25] = Some 25)
               [0..<length remainder_data] = []"
    by (simp add: data_lens_remainder len upt_3)
  have "(10, b10) \<in> set bs" by (simp add: bs)
  from create_bins_content [OF nz assms this]
  have "mset b10 = mset [0, 1, 2]" by (simp only: range_elems_scenario f10)
  then have m10: "mset b10 = {#0, 1, 2#}" by simp
  have "(25, b25) \<in> set bs" by (simp add: bs)
  from create_bins_content [OF nz assms this]
  have "mset b25 = mset []" by (simp only: range_elems_scenario f25)
  then have "b25 = []" by simp
  with bs m10 show ?thesis by blast
qed

lemma three_in_twos:
  assumes "length xs = 3"
  shows "all_batches xs 2 = Inr [take 2 xs, drop 2 xs]"
proof -
  have "range_len 0 (int (length xs)) 2 = 2"
    using assms by (simp add: range_len_def)
  then show ?thesis
    using assms by (simp add: all_batches_pos upt_rec)
qed

lemma remainder_run:
  "map_sum id fst (ESMBatchSampler_init (\<lambda>k. 0) remainder_data 10 40 15 2)
     = Inr \<lparr>self_batch_size = 2, drop_last = True,
            self_bins = [(10, [1, 2, 0]), (25, [])],
            self_batches = [[0], [1, 2]]\<rparr>"
proof -
  have f10: "filter (\<lambda>i. first_bin 15 (data_lens remainder_data ! i) [10, 25] = Some 10)
               [0..<length remainder_data] = [0, 1, 2]"
    by (simp add: data_lens_remainder length_remainder upt_3)
  have f25: "filter (\<lambda>i. first_bin 15 (data_lens remainder_data ! i) [10, 25] = Some 25)
               [0..<length remainder_data] = []"
    by (simp add: data_lens_remainder length_remainder upt_3)
  have a: "assign_bins remainder_data 10 40 15 = Inr [(10, [0, 1, 2]), (25, [])]"
    unfolding assign_bins_eq [of 15 remainder_data 10 40, simplified] range_elems_scenario
    by (simp only: list.map f10 f25)
  have s0: "shuffle [] (\<lambda>k. 0) = ([] :: nat list, \<lambda>k. 0)"
    by (simp add: shuffle_def)
  have s2: "shuffle [a, b] (\<lambda>k. 0) = ([b, a], \<lambda>k. 0)" for a b :: 'a
    by (simp add: shuffle_def randbelow_def)
  have s3: "shuffle [a, b, c] (\<lambda>k. 0) = ([b, c, a], \<lambda>k. 0)" for a b c :: 'a
    by (simp add: shuffle_def randbelow_def numeral_2_eq_2)
  have b: "create_bins (\<lambda>k. 0) remainder_data 10 40 15 = Inr ([(10, [1, 2, 0]), (25, [])], \<lambda>k. 0)"
    by (simp add: create_bins_def a s3 s0)
  have c: "create_batches (\<lambda>k. 0) [(10, [1, 2, 0]), (25, [])] 2 = Inr ([[0], [1, 2]], \<lambda>k. 0)"
    by (simp add: create_batches_def bins_flattened_concat three_in_twos [of "[1, 2, 0]", simplified] s2)
  show ?thesis unfolding ESMBatchSampler_init_Inr [OF b c] by simp
qed

text \<open>
  C1.  \<open>ESMBatchSampler\<close> on three records of the lengths 10, 11 and 12 with
  \<open>min_seq_len = 10\<close>, \<open>max_seq_len = 40\<close>, \<open>bin_size = 15\<close> and \<open>batch_size = 2\<close>: for
  every state of the generator the sampler is constructed with \<open>drop_last = True\<close>, its
  batches hold all three indices, and one of its batches has a single element.  With
  the generator that always draws 0 the batches are \<open>[[0], [1, 2]]\<close>.
\<close>

theorem create_batches_keeps_remainder:
  "(\<exists>s g'. ESMBatchSampler_init g remainder_data 10 40 15 2 = Inr (s, g')
      \<and> drop_last s = True \<and> self_batch_size s = 2
      \<and> length (self_batches s) = 2
      \<and> mset (concat (self_batches s)) = {#0, 1, 2#}
      \<and> (\<exists>b. b \<in> set (self_batches s) \<and> length b = 1))
   \<and> map_sum id fst (ESMBatchSampler_init (\<lambda>k. 0) remainder_data 10 40 15 2)
     = Inr \<lparr>self_batch_size = 2, drop_last = True,
            self_bins = [(10, [1, 2, 0]), (25, [])],
            self_batches = [[0], [1, 2]]\<rparr>"
proof -
  obtain bs g1 where cb: "create_bins g remainder_data 10 40 15 = Inr (bs, g1)"
    using create_bins_total [of 15 g remainder_data 10 40] by auto
  from remainder_bins [OF cb]
  obtain b10 where bs: "bs = [(10, b10), (25, [])]" and m10: "mset b10 = {#0, 1, 2#}" by blast
  have "size (mset b10) = 3" unfolding m10 by simp
  then have l10: "length b10 = 3" by simp
  have flat: "bins_flattened bs = b10" by (simp add: bins_flattened_concat bs)
  have ch: "all_batches (bins_flattened bs) 2 = Inr [take 2 b10, drop 2 b10]"
    unfolding flat using l10 by (rule three_in_twos)
  obtain batches g2 where sh: "shuffle [take 2 b10, drop 2 b10] g1 = (batches, g2)"
    by (cases "shuffle [take 2 b10, drop 2 b10] g1")
  have r: "create_batches g1 bs 2 = Inr (batches, g2)"
    by (simp add: create_batches_def ch sh)
  have "mset (fst (shuffle [take 2 b10, drop 2 b10] g1)) = mset [take 2 b10, drop 2 b10]"
    by (rule mset_shuffle)
  then have mb: "mset batches = mset [take 2 b10, drop 2 b10]" by (simp add: sh)
  have lb: "length batches = 2" using mset_eq_length [OF mb] by simp
  have "mset (concat batches) = mset (concat [take 2 b10, drop 2 b10])"
    using mb by (rule mset_concat_cong)
  then have mc: "mset (concat batches) = {#0, 1, 2#}" using m10 by simp
  have "drop 2 b10 \<in> set batches" using mset_eq_setD [OF mb] by simp
  moreover have "length (drop 2 b10) = 1" using l10 by simp
  ultimately have short: "\<exists>b. b \<in> set batches \<and> length b = 1" by blast
  let ?s = "\<lparr>self_batch_size = 2, drop_last = True, self_bins = bs, self_batches = batches\<rparr>"
  have i: "ESMBatchSampler_init g remainder_data 10 40 15 2 = Inr (?s, g2)"
    using cb r by (rule ESMBatchSampler_init_Inr)
  have "\<exists>s g'. ESMBatchSampler_init g remainder_data 10 40 15 2 = Inr (s, g')
      \<and> drop_last s = True \<and> self_batch_size s = 2
      \<and> length (self_batches s) = 2
      \<and> mset (concat (self_batches s)) = {#0, 1, 2#}
      \<and> (\<exists>b. b \<in> set (self_batches s) \<and> length b = 1)"
  proof (rule exI [of _ ?s], rule exI [of _ g2], intro conjI)
    show "ESMBatchSampler_init g remainder_data 10 40 15 2 = Inr (?s, g2)" by (rule i)
    show "drop_last ?s = True" by simp
    show "self_batch_size ?s = 2" by simp
    show "length (self_batches ?s) = 2" using lb by simp
    show "mset (concat (self_batches ?s)) = {#0, 1, 2#}" using mc by simp
    show "\<exists>b. b \<in> set (self_batches ?s) \<and> length b = 1" using short by simp
  qed
  then show ?thesis using remainder_run by (rule conjI)
qed

end
